theory Spec2Isabelle
  imports Main
begin

section \<open>Strings\<close>

text \<open>
  A TypeScript string is modelled as a HOL \<open>string\<close>; the model covers the strings whose
  code units are below 256. Of the code units that \<open>String.prototype.trim\<close> removes
  (the WhiteSpace and LineTerminator productions of ECMAScript), those in this range are
  TAB, LF, VT, FF, CR, SPACE and NO-BREAK SPACE.
\<close>

definition isWhiteSpace :: "char \<Rightarrow> bool" where
  "isWhiteSpace c \<longleftrightarrow>
     c = CHR 0x09 \<or> c = CHR 0x0A \<or> c = CHR 0x0B \<or> c = CHR 0x0C \<or> c = CHR 0x0D \<or>
     c = CHR 0x20 \<or> c = CHR 0xA0"

text \<open>\<open>s.trim()\<close>: leading and trailing white space removed.\<close>

definition trim :: "string \<Rightarrow> string" where
  "trim s = rev (dropWhile isWhiteSpace (rev (dropWhile isWhiteSpace s)))"

text \<open>
  \<open>s.split(sep)\<close> for a separator of one code unit: the pieces between the occurrences
  of the separator, empty pieces included; the empty string gives one empty piece.
\<close>

fun splitOn :: "char \<Rightarrow> string \<Rightarrow> string list" where
  "splitOn sep [] = [[]]"
| "splitOn sep (c # cs) =
     (if c = sep then [] # splitOn sep cs
      else (case splitOn sep cs of
              [] \<Rightarrow> [[c]]
            | w # ws \<Rightarrow> (c # w) # ws))"

text \<open>\<open>ws.join(sep)\<close> for a separator of one code unit.\<close>

fun joinWith :: "char \<Rightarrow> string list \<Rightarrow> string" where
  "joinWith sep [] = []"
| "joinWith sep [w] = w"
| "joinWith sep (w # v # ws) = w @ sep # joinWith sep (v # ws)"

section \<open>The radix tree (RadixTree.ts)\<close>

text \<open>
  \<open>RadixNode\<close>: the optional \<open>replacement\<close> is an option (\<open>undefined\<close> is \<open>None\<close>);
  \<open>children\<close> is a JavaScript \<open>Map\<close>, which iterates in insertion order, so it is an
  association list in that order.
\<close>

datatype RadixNode =
  RadixNode (phrase: "string list") (replacement: "string option") (isEndOfWord: bool)
    (children: "(string \<times> RadixNode) list")

text \<open>\<open>Map.prototype.set\<close>: an existing key keeps its place and gets the new value, a new
  key is appended.\<close>

fun mapSet :: "string \<Rightarrow> 'v \<Rightarrow> (string \<times> 'v) list \<Rightarrow> (string \<times> 'v) list" where
  "mapSet k v [] = [(k, v)]"
| "mapSet k v ((k', v') # es) = (if k' = k then (k, v) # es else (k', v') # mapSet k v es)"

text \<open>The constructor: a root with an empty phrase and no children.\<close>

definition newTree :: RadixNode where
  "newTree = RadixNode [] None False []"

text \<open>\<open>findCommonPrefix\<close>: the counting loop, as a recursion on both arrays.\<close>

fun findCommonPrefix :: "string list \<Rightarrow> string list \<Rightarrow> nat" where
  "findCommonPrefix (x # xs) (y # ys) = (if x = y then Suc (findCommonPrefix xs ys) else 0)"
| "findCommonPrefix _ _ = 0"

text \<open>
  The \<open>for\<close> loop of \<open>insertRecursive\<close> handles the first child, in iteration order, whose
  phrase has a common prefix with the remaining words, and returns; \<open>firstSharing\<close> is the
  position of that child, \<open>None\<close> when the loop falls through.
\<close>

fun firstSharing :: "(string \<times> RadixNode) list \<Rightarrow> string list \<Rightarrow> nat option" where
  "firstSharing [] remainingWords = None"
| "firstSharing ((key, child) # rest) remainingWords =
     (if findCommonPrefix (phrase child) remainingWords > 0 then Some 0
      else map_option Suc (firstSharing rest remainingWords))"

lemma firstSharing_Some:
  "firstSharing cs ws = Some j \<Longrightarrow>
     j < length cs \<and> 0 < findCommonPrefix (phrase (snd (cs ! j))) ws"
  by (induction cs ws arbitrary: j rule: firstSharing.induct) (auto split: if_splits)

text \<open>
  \<open>insertRecursive\<close>. The source passes \<open>words\<close> and \<open>index\<close> and reads them only through
  \<open>index === words.length\<close>, \<open>words[index]\<close> and \<open>words.slice(index)\<close>; \<open>insert\<close> starts at
  index 0 and every recursive call adds a common prefix length, which is at most the
  number of remaining words, so the index never passes the end. The model passes the
  slice \<open>remainingWords = words.slice(index)\<close> itself. The source mutates the nodes in
  place; the model returns the updated node, and the updated child keeps its place and
  its key in the parent's map.
\<close>

function insertRecursive :: "RadixNode \<Rightarrow> string list \<Rightarrow> string \<Rightarrow> RadixNode" where
  "insertRecursive node remainingWords replacement' =
     (if remainingWords = [] then
        RadixNode (phrase node) (Some replacement') True (children node)
      else
        (case firstSharing (children node) remainingWords of
           None \<Rightarrow>
             RadixNode (phrase node) (replacement node) (isEndOfWord node)
               (mapSet (hd remainingWords) (RadixNode remainingWords (Some replacement') True [])
                  (children node))
         | Some j \<Rightarrow>
             (let key = fst (children node ! j);
                  child = snd (children node ! j);
                  commonPrefixLength = findCommonPrefix (phrase child) remainingWords
              in RadixNode (phrase node) (replacement node) (isEndOfWord node)
                   ((children node)[j := (key,
                      if commonPrefixLength = length (phrase child) then
                        insertRecursive child (drop commonPrefixLength remainingWords) replacement'
                      else if commonPrefixLength = length remainingWords then
                        RadixNode remainingWords (Some replacement') True
                          (mapSet (phrase child ! commonPrefixLength)
                             (RadixNode (drop commonPrefixLength (phrase child))
                                (replacement child) (isEndOfWord child) (children child)) [])
                      else
                        RadixNode (take commonPrefixLength remainingWords) None False
                          (mapSet (remainingWords ! commonPrefixLength)
                             (RadixNode (drop commonPrefixLength remainingWords)
                                (Some replacement') True [])
                             (mapSet (phrase child ! commonPrefixLength)
                                (RadixNode (drop commonPrefixLength (phrase child))
                                   (replacement child) (isEndOfWord child) (children child))
                                [])))]))))"
  by pat_completeness auto
termination
proof (relation "measure (\<lambda>(node, remainingWords, r). length remainingWords)", goal_cases)
  case 1
  show ?case by simp
next
  case (2 node remainingWords replacement' j key child n)
  from 2 firstSharing_Some [of "children node" remainingWords j]
  have "0 < n" by simp
  with 2 show ?case by (cases remainingWords) auto
qed

declare insertRecursive.simps [simp del]

text \<open>\<open>insert\<close>: the phrase is trimmed and split at every space.\<close>

definition phraseWords :: "string \<Rightarrow> string list" where
  "phraseWords phrase' = splitOn (CHR '' '') (trim phrase')"

definition insert_tree :: "RadixNode \<Rightarrow> string \<Rightarrow> string \<Rightarrow> RadixNode" where
  "insert_tree root phrase' replacement' =
     insertRecursive root (phraseWords phrase') replacement'"

text \<open>
  The inner loop of \<open>findLongestMatchRecursive\<close>: the child's phrase against the words
  from \<open>index\<close> on. A read past the end of \<open>words\<close> is \<open>undefined\<close>, equal to no word.
\<close>

fun matchesAt :: "string list \<Rightarrow> string list \<Rightarrow> nat \<Rightarrow> bool" where
  "matchesAt [] words index = True"
| "matchesAt (p # ps) words index =
     (if index < length words \<and> p = words ! index then matchesAt ps words (Suc index)
      else False)"

lemma size_child:
  "(key, child) \<in> set (children node) \<Longrightarrow> size child < size node"
proof (cases node)
  case (RadixNode p r e cs)
  assume "(key, child) \<in> set (children node)"
  with RadixNode have "(key, child) \<in> set cs" by simp
  then have "size child < Suc (size_list (size_prod (\<lambda>_. 0) size) cs)"
    by (induction cs) auto
  with RadixNode show ?thesis by simp
qed

text \<open>
  \<open>findLongestMatchRecursive\<close>: the loop over \<open>node.children.values()\<close> is a left fold that
  carries \<open>bestMatch\<close>. The result pair holds \<open>node.replacement\<close> as it is stored. The
  index is an array index, a natural number.
\<close>

function findLongestMatchRecursive ::
  "RadixNode \<Rightarrow> string list \<Rightarrow> nat \<Rightarrow> nat \<Rightarrow> (nat \<times> string option) option" where
  "findLongestMatchRecursive node words index matchLength =
     (if index \<ge> length words then
        (if isEndOfWord node then Some (matchLength, replacement node) else None)
      else
        foldl (\<lambda>bestMatch entry.
                 let child = snd entry in
                 if index + length (phrase child) > length words then bestMatch
                 else if matchesAt (phrase child) words index then
                   (case findLongestMatchRecursive child words (index + length (phrase child))
                           (matchLength + length (phrase child)) of
                      None \<Rightarrow> bestMatch
                    | Some match \<Rightarrow>
                        (case bestMatch of
                           None \<Rightarrow> Some match
                         | Some best \<Rightarrow> if fst match > fst best then Some match else bestMatch))
                 else bestMatch)
          (if isEndOfWord node then Some (matchLength, replacement node) else None)
          (children node))"
  by pat_completeness auto
termination
proof (relation "measure (\<lambda>(node, words, index, matchLength). size node)", goal_cases)
  case 1
  show ?case by simp
next
  case (2 node words index matchLength bestMatch entry child)
  then have "(fst entry, child) \<in> set (children node)" by simp
  then show ?case using size_child by simp
qed

declare findLongestMatchRecursive.simps [simp del]

definition findLongestMatch ::
  "RadixNode \<Rightarrow> string list \<Rightarrow> nat \<Rightarrow> (nat \<times> string option) option" where
  "findLongestMatch root words startIndex = findLongestMatchRecursive root words startIndex 0"

section \<open>The translation cache (extension.ts)\<close>

text \<open>\<open>xs.slice(start, end)\<close>: a negative bound counts from the end, and every bound is
  clamped to the array.\<close>

definition slice :: "'a list \<Rightarrow> int \<Rightarrow> int \<Rightarrow> 'a list" where
  "slice xs start end' =
     (let n = int (length xs);
          from = (if start < 0 then max (n + start) 0 else min start n);
          to = (if end' < 0 then max (n + end') 0 else min end' n)
      in take (nat (to - from)) (drop (nat from) xs))"

text \<open>
  \<open>getRandomWordsFromWords\<close>. The start index comes from
  \<open>getRandomNumberInRange(0, words.length - 1)\<close>, which draws from \<open>Math.random\<close>; the model
  takes the drawn index as the argument \<open>randomIndex\<close>. \<open>null\<close> and \<open>undefined\<close> (a read
  past the end of \<open>words\<close>) are both \<open>None\<close>.
\<close>

definition getRandomWordsFromWords :: "string list \<Rightarrow> int \<Rightarrow> nat \<Rightarrow> string option" where
  "getRandomWordsFromWords words wordCount randomIndex =
     (if wordCount < 1 then None
      else if wordCount = 1 then
        (if randomIndex < length words then Some (words ! randomIndex) else None)
      else
        (let wordsAfterRandomWord = int (length words) - int randomIndex - 1;
             wordsAfterRandomWordCalculated =
               (if wordsAfterRandomWord > wordCount then wordCount else wordsAfterRandomWord)
         in Some (joinWith (CHR '' '')
              (slice words (int randomIndex) (int randomIndex + wordsAfterRandomWordCalculated)))))"

text \<open>
  The state of one update cycle: the tree and the persisted dictionary of the target
  language. The dictionary is a JavaScript object; its string keys enumerate in the
  order in which they were first set (keys that are array indices, which enumerate
  first, are outside this order), and \<open>{...old, [key]: value}\<close> is \<open>mapSet\<close>. The text
  ranges and the decorations of the editor are left out.
\<close>

type_synonym cache = "RadixNode \<times> (string \<times> string) list"

text \<open>Hydration: the loop over \<open>Object.entries(previouslySavedTranslations)\<close>.\<close>

definition hydrate :: "(string \<times> string) list \<Rightarrow> RadixNode" where
  "hydrate previouslySavedTranslations =
     foldl (\<lambda>tree entry. insert_tree tree (fst entry) (snd entry)) newTree
       previouslySavedTranslations"

text \<open>The parsed response: apostrophes removed, split at commas, each piece trimmed.\<close>

definition parseTranslated :: "string \<Rightarrow> string list" where
  "parseTranslated translated =
     map trim (splitOn (CHR '','') (filter (\<lambda>c. c \<noteq> CHR 0x27) translated))"

text \<open>One translation folded back: inserted into the tree and merged into the dictionary.\<close>

definition mergeTranslation :: "cache \<Rightarrow> string \<Rightarrow> string \<Rightarrow> cache" where
  "mergeTranslation state randomWord translation =
     (insert_tree (fst state) randomWord translation, mapSet randomWord translation (snd state))"

text \<open>
  \<open>translatedWords.forEach((translation, index) => ...)\<close>: the callback returns at once
  when \<open>wordsToTranslate[index]\<close> is missing.
\<close>

fun forEachTranslated :: "cache \<Rightarrow> string list \<Rightarrow> string list \<Rightarrow> nat \<Rightarrow> cache" where
  "forEachTranslated state wordsToTranslate [] index = state"
| "forEachTranslated state wordsToTranslate (translation # rest) index =
     (if index \<ge> length wordsToTranslate then
        forEachTranslated state wordsToTranslate rest (Suc index)
      else
        forEachTranslated (mergeTranslation state (wordsToTranslate ! index) translation)
          wordsToTranslate rest (Suc index))"

text \<open>
  The batch step of \<open>handleDocumentUpdate\<close>; \<open>translated\<close> is the answer of
  \<open>translateText\<close>, \<open>None\<close> for \<open>undefined\<close>.
\<close>

definition translateBatch :: "cache \<Rightarrow> string list \<Rightarrow> string option \<Rightarrow> cache" where
  "translateBatch state wordsToTranslate translated =
     (if length wordsToTranslate > 0 then
        (case translated of
           None \<Rightarrow> state
         | Some answer \<Rightarrow>
             if answer = [] then state
             else
               (let translatedWords = parseTranslated answer
                in if length translatedWords = 0 then state
                   else forEachTranslated state wordsToTranslate translatedWords 0))
      else state)"

section \<open>The search, with the tree as state\<close>

text \<open>
  \<open>findLongestMatchRecursive\<close> once more, now with the tree as state: the call returns its
  result together with the node as it is after the call. The loop carries, next to
  \<open>bestMatch\<close>, the children map entries it has passed, each child as the recursive call
  left it, and the node is rebuilt from its fields after the loop. The source assigns to
  no field of a node, so no field is changed on the way.
\<close>

function findLongestMatchRecursive_st ::
  "RadixNode \<Rightarrow> string list \<Rightarrow> nat \<Rightarrow> nat \<Rightarrow> (nat \<times> string option) option \<times> RadixNode" where
  "findLongestMatchRecursive_st node words index matchLength =
     (if index \<ge> length words then
        ((if isEndOfWord node then Some (matchLength, replacement node) else None), node)
      else
        (let after =
           foldl (\<lambda>acc entry.
                 let bestMatch = fst acc; passed = snd acc; child = snd entry in
                 if index + length (phrase child) > length words then
                   (bestMatch, passed @ [entry])
                 else if matchesAt (phrase child) words index then
                   (let called = findLongestMatchRecursive_st child words
                          (index + length (phrase child)) (matchLength + length (phrase child))
                    in ((case fst called of
                           None \<Rightarrow> bestMatch
                         | Some match \<Rightarrow>
                             (case bestMatch of
                                None \<Rightarrow> Some match
                              | Some best \<Rightarrow>
                                  if fst match > fst best then Some match else bestMatch)),
                        passed @ [(fst entry, snd called)]))
                 else (bestMatch, passed @ [entry]))
             ((if isEndOfWord node then Some (matchLength, replacement node) else None), [])
             (children node)
         in (fst after,
             RadixNode (phrase node) (replacement node) (isEndOfWord node) (snd after))))"
  by pat_completeness auto
termination
proof (relation "measure (\<lambda>(node, words, index, matchLength). size node)", goal_cases)
  case 1
  show ?case by simp
next
  case (2 node words index matchLength acc entry bestMatch passed child)
  then have "(fst entry, child) \<in> set (children node)" by simp
  from size_child [OF this] show ?case by simp
qed

declare findLongestMatchRecursive_st.simps [simp del]

definition findLongestMatch_st ::
  "RadixNode \<Rightarrow> string list \<Rightarrow> nat \<Rightarrow> (nat \<times> string option) option \<times> RadixNode" where
  "findLongestMatch_st root words startIndex = findLongestMatchRecursive_st root words startIndex 0"

section \<open>Specification: the phrases a tree stores\<close>

text \<open>\<open>stripPrefix p ws\<close> is the rest of \<open>ws\<close> after its prefix \<open>p\<close>, if \<open>p\<close> is one.\<close>

fun stripPrefix :: "'a list \<Rightarrow> 'a list \<Rightarrow> 'a list option" where
  "stripPrefix [] ws = Some ws"
| "stripPrefix (p # ps) [] = None"
| "stripPrefix (p # ps) (w # ws) = (if p = w then stripPrefix ps ws else None)"

text \<open>
  What a tree stores, read along the children maps by first word: \<open>lookup node ws\<close> is
  the replacement field of the end-of-word node reached from \<open>node\<close> by labels that
  concatenate to \<open>ws\<close>, and \<open>None\<close> if there is no such node.
\<close>

function lookup :: "RadixNode \<Rightarrow> string list \<Rightarrow> string option option" where
  "lookup node ws =
     (if ws = [] then (if isEndOfWord node then Some (replacement node) else None)
      else (case map_of (children node) (hd ws) of
              None \<Rightarrow> None
            | Some child \<Rightarrow>
                (case stripPrefix (phrase child) ws of
                   None \<Rightarrow> None
                 | Some rest \<Rightarrow> lookup child rest)))"
  by pat_completeness auto
termination
proof (relation "measure (\<lambda>(node, ws). size node)", goal_cases)
  case 1
  show ?case by simp
next
  case (2 node ws child rest)
  then have "(hd ws, child) \<in> set (children node)" by (simp add: map_of_SomeD)
  then show ?case using size_child by simp
qed

declare lookup.simps [simp del]

text \<open>
  The shape that \<open>insertRecursive\<close> maintains: at every node the keys of the children map
  are distinct, and each child has a non-empty label whose first word is its key.
\<close>

function wellFormed :: "RadixNode \<Rightarrow> bool" where
  "wellFormed node \<longleftrightarrow>
     distinct (map fst (children node)) \<and>
     (\<forall>entry \<in> set (children node).
        phrase (snd entry) \<noteq> [] \<and> fst entry = hd (phrase (snd entry)) \<and> wellFormed (snd entry))"
  by pat_completeness auto
termination
proof (relation "measure size", goal_cases)
  case 1
  show ?case by simp
next
  case (2 node entry)
  then have "(fst entry, snd entry) \<in> set (children node)" by simp
  from size_child [OF this] show ?case by simp
qed

declare wellFormed.simps [simp del]

text \<open>
  A tree built from a fresh root by a sequence of \<open>insert\<close> calls, given as the list of
  their arguments, and the replacement of the most recent of these inserts whose phrase
  has the word sequence \<open>ws\<close>.
\<close>

definition build :: "(string \<times> string) list \<Rightarrow> RadixNode" where
  "build ins = foldl (\<lambda>tree entry. insert_tree tree (fst entry) (snd entry)) newTree ins"

fun lastInserted :: "(string \<times> string) list \<Rightarrow> string list \<Rightarrow> string option" where
  "lastInserted [] ws = None"
| "lastInserted (entry # later) ws =
     (case lastInserted later ws of
        Some r \<Rightarrow> Some r
      | None \<Rightarrow> if phraseWords (fst entry) = ws then Some (snd entry) else None)"

text \<open>
  \<open>isLongest d rest res\<close>: the result \<open>res\<close> names the longest prefix of \<open>rest\<close> that the
  map \<open>d\<close> stores, with its value, or is \<open>None\<close> when \<open>d\<close> stores no prefix of \<open>rest\<close>.
\<close>

definition isLongest :: "(string list \<Rightarrow> 'v option) \<Rightarrow> string list \<Rightarrow> (nat \<times> 'v) option \<Rightarrow> bool" where
  "isLongest d rest res \<longleftrightarrow>
     (case res of
        None \<Rightarrow> (\<forall>k \<le> length rest. d (take k rest) = None)
      | Some (k, v) \<Rightarrow> k \<le> length rest \<and> d (take k rest) = Some v \<and>
          (\<forall>k'. k < k' \<and> k' \<le> length rest \<longrightarrow> d (take k' rest) = None))"

text \<open>Two phrase labels begin with the same word.\<close>

fun sameFirstWord :: "string list \<Rightarrow> string list \<Rightarrow> bool" where
  "sameFirstWord (x # xs) (y # ys) \<longleftrightarrow> x = y"
| "sameFirstWord _ _ \<longleftrightarrow> False"

text \<open>No two entries of a children map have labels that begin with the same word; and
  this at every node of the tree.\<close>

fun noSharedFirstWord :: "(string \<times> RadixNode) list \<Rightarrow> bool" where
  "noSharedFirstWord [] \<longleftrightarrow> True"
| "noSharedFirstWord (entry # entries) \<longleftrightarrow>
     (\<forall>other \<in> set entries. \<not> sameFirstWord (phrase (snd entry)) (phrase (snd other))) \<and>
     noSharedFirstWord entries"

function radixProperty :: "RadixNode \<Rightarrow> bool" where
  "radixProperty node \<longleftrightarrow>
     noSharedFirstWord (children node) \<and>
     (\<forall>entry \<in> set (children node). radixProperty (snd entry))"
  by pat_completeness auto
termination
proof (relation "measure size", goal_cases)
  case 1
  show ?case by simp
next
  case (2 node entry)
  then have "(fst entry, snd entry) \<in> set (children node)" by simp
  from size_child [OF this] show ?case by simp
qed

declare radixProperty.simps [simp del]

text \<open>
  The end-of-word nodes of a tree, each with the concatenation of the phrase labels from
  the root to it (\<open>path\<close> is the concatenation down to the parent) and its replacement,
  in the pre-order of \<open>printRecursive\<close>.
\<close>

function endNodes :: "string list \<Rightarrow> RadixNode \<Rightarrow> (string list \<times> string option) list" where
  "endNodes path node =
     (if isEndOfWord node then [(path @ phrase node, replacement node)] else []) @
     concat (map (\<lambda>entry. endNodes (path @ phrase node) (snd entry)) (children node))"
  by pat_completeness auto
termination
proof (relation "measure (\<lambda>(path, node). size node)", goal_cases)
  case 1
  show ?case by simp
next
  case (2 path node entry)
  then have "(fst entry, snd entry) \<in> set (children node)" by simp
  from size_child [OF this] show ?case by simp
qed

declare endNodes.simps [simp del]

text \<open>The dictionary after a sequence of merges into an empty one.\<close>

definition persist :: "(string \<times> string) list \<Rightarrow> (string \<times> string) list" where
  "persist ins = foldl (\<lambda>dict entry. mapSet (fst entry) (snd entry) dict) [] ins"

text \<open>
  Names for parts of the code that the proofs treat on their own: the lookup that enters
  a child (\<open>via\<close>), the node that the three cases of \<open>insertRecursive\<close> put in the place
  of the child sharing a prefix (\<open>splitChild\<close>, \<open>rec\<close> being the result of the recursive
  call), the initial \<open>bestMatch\<close> of a node (\<open>own\<close>), and a result with its match length
  moved by \<open>m\<close> (\<open>shift\<close>).
\<close>

definition via :: "RadixNode \<Rightarrow> string list \<Rightarrow> string option option" where
  "via child qs = (case stripPrefix (phrase child) qs of None \<Rightarrow> None | Some rest \<Rightarrow> lookup child rest)"

definition viaO :: "RadixNode option \<Rightarrow> string list \<Rightarrow> string option option" where
  "viaO co qs = (case co of None \<Rightarrow> None | Some c \<Rightarrow> via c qs)"

definition splitChild :: "RadixNode \<Rightarrow> string list \<Rightarrow> string \<Rightarrow> RadixNode \<Rightarrow> RadixNode" where
  "splitChild child ws r rec =
     (let n = findCommonPrefix (phrase child) ws in
      if n = length (phrase child) then rec
      else if n = length ws then
        RadixNode ws (Some r) True
          (mapSet (phrase child ! n)
             (RadixNode (drop n (phrase child)) (replacement child) (isEndOfWord child) (children child)) [])
      else
        RadixNode (take n ws) None False
          (mapSet (ws ! n) (RadixNode (drop n ws) (Some r) True [])
             (mapSet (phrase child ! n)
                (RadixNode (drop n (phrase child)) (replacement child) (isEndOfWord child) (children child))
                [])))"

definition own :: "RadixNode \<Rightarrow> nat \<Rightarrow> (nat \<times> string option) option" where
  "own node m = (if isEndOfWord node then Some (m, replacement node) else None)"

definition shift :: "nat \<Rightarrow> (nat \<times> 'v) option \<Rightarrow> (nat \<times> 'v) option" where
  "shift m res = map_option (\<lambda>(k, v). (m + k, v)) res"

section \<open>Insertion updates the stored phrases\<close>

lemma stripPrefix_Some: "stripPrefix p ws = Some rest \<longleftrightarrow> ws = p @ rest"
  by (induction p ws rule: stripPrefix.induct) auto

lemma stripPrefix_None: "stripPrefix p ws = None \<longleftrightarrow> (\<forall>rest. ws \<noteq> p @ rest)"
  by (induction p ws rule: stripPrefix.induct) auto

lemma stripPrefix_append [simp]: "stripPrefix p (p @ rest) = Some rest"
  by (simp add: stripPrefix_Some)

lemma stripPrefix_self [simp]: "stripPrefix p p = Some []"
  by (simp add: stripPrefix_Some)

lemma fcp_pos: "0 < findCommonPrefix a b \<longleftrightarrow> a \<noteq> [] \<and> b \<noteq> [] \<and> hd a = hd b"
  by (induction a b rule: findCommonPrefix.induct) auto

text \<open>decomposition of two lists by their common prefix\<close>
lemma fcp_split:
  "\<exists>c a' b'. a = c @ a' \<and> b = c @ b' \<and> length c = findCommonPrefix a b \<and>
     (a' \<noteq> [] \<longrightarrow> b' \<noteq> [] \<longrightarrow> hd a' \<noteq> hd b')"
proof (induction a b rule: findCommonPrefix.induct)
  case (1 x xs y ys)
  show ?case
  proof (cases "x = y")
    case True
    with 1 obtain c a' b' where "xs = c @ a'" "ys = c @ b'" "length c = findCommonPrefix xs ys"
      "a' \<noteq> [] \<longrightarrow> b' \<noteq> [] \<longrightarrow> hd a' \<noteq> hd b'" by blast
    with True show ?thesis
      by (intro exI [of _ "x # c"] exI [of _ a'] exI [of _ b']) simp
  next
    case False
    then show ?thesis
      by (intro exI [of _ "[]"] exI [of _ "x # xs"] exI [of _ "y # ys"]) simp
  qed
qed auto

lemma lookup_Nil: "lookup node [] = (if isEndOfWord node then Some (replacement node) else None)"
  by (simp add: lookup.simps)

lemma lookup_Cons:
  "lookup node (w # ws) = (case map_of (children node) w of None \<Rightarrow> None | Some c \<Rightarrow> via c (w # ws))"
  by (simp add: lookup.simps [of node "w # ws"] via_def split: option.splits)

lemma stripPrefix_app:
  "stripPrefix (a @ b) qs = (case stripPrefix a qs of None \<Rightarrow> None | Some rest \<Rightarrow> stripPrefix b rest)"
  by (induction a qs rule: stripPrefix.induct) auto

lemma stripPrefix_hd: "s \<noteq> [] \<Longrightarrow> qs \<noteq> [] \<Longrightarrow> hd s \<noteq> hd qs \<Longrightarrow> stripPrefix s qs = None"
  by (cases s; cases qs) auto

lemma stripPrefix_Nil2: "s \<noteq> [] \<Longrightarrow> stripPrefix s [] = None"
  by (cases s) auto

lemma via_case2:
  assumes "s \<noteq> []"
  shows "via (RadixNode ws (Some r) True (mapSet (hd s) (RadixNode s rc ec cc) [])) qs =
         (if qs = ws then Some (Some r) else via (RadixNode (ws @ s) rc ec cc) qs)"
proof (cases "stripPrefix ws qs")
  case None
  then have "qs \<noteq> ws" by (auto simp: stripPrefix_None)
  with None show ?thesis by (simp add: via_def stripPrefix_app)
next
  case (Some rest)
  then have qs: "qs = ws @ rest" by (simp add: stripPrefix_Some)
  show ?thesis
  proof (cases rest)
    case Nil
    with qs show ?thesis by (simp add: via_def lookup_Nil)
  next
    case (Cons x xs)
    show ?thesis
    proof (cases "x = hd s")
      case True
      with qs Cons assms show ?thesis
        by (simp add: via_def lookup_Cons stripPrefix_app lookup.simps [of "RadixNode s rc ec cc"]
            lookup.simps [of "RadixNode (ws @ s) rc ec cc"] split: option.splits)
    next
      case False
      with qs Cons assms show ?thesis
        by (simp add: via_def lookup_Cons stripPrefix_app stripPrefix_hd)
    qed
  qed
qed

lemma lookup_leaf: "lookup (RadixNode p (Some r) True []) rest = (if rest = [] then Some (Some r) else None)"
  by (cases rest) (simp_all add: lookup_Nil lookup_Cons)

lemma via_case3:
  assumes "a' \<noteq> []" "b' \<noteq> []" "hd a' \<noteq> hd b'"
  shows "via (RadixNode c None False
            (mapSet (hd b') (RadixNode b' (Some r) True [])
               (mapSet (hd a') (RadixNode a' rc ec cc) []))) qs =
         (if qs = c @ b' then Some (Some r) else via (RadixNode (c @ a') rc ec cc) qs)"
proof (cases "stripPrefix c qs")
  case None
  then have "qs \<noteq> c @ b'" by (auto simp: stripPrefix_None)
  with None show ?thesis by (simp add: via_def stripPrefix_app)
next
  case (Some rest)
  then have qs: "qs = c @ rest" by (simp add: stripPrefix_Some)
  show ?thesis
  proof (cases rest)
    case Nil
    with qs assms show ?thesis by (simp add: via_def lookup_Nil stripPrefix_app stripPrefix_Nil2)
  next
    case (Cons x xs)
    consider "x = hd a'" | "x = hd b'" | "x \<noteq> hd a'" "x \<noteq> hd b'" by blast
    then show ?thesis
    proof cases
      case 1
      with qs Cons assms have "rest \<noteq> b'" by auto
      with 1 qs Cons assms show ?thesis
        by (simp add: via_def lookup_Cons stripPrefix_app lookup.simps [of "RadixNode a' rc ec cc"]
            lookup.simps [of "RadixNode (c @ a') rc ec cc"] split: option.splits)
    next
      case 2
      with qs Cons assms have "stripPrefix a' rest = None" by (simp add: stripPrefix_hd)
      moreover have "(stripPrefix b' rest = Some []) = (rest = b')" by (auto simp: stripPrefix_Some)
      ultimately show ?thesis using 2 qs Cons assms
        by (auto simp add: via_def lookup_Cons stripPrefix_app lookup_leaf stripPrefix_Some split: option.splits)
    next
      case 3
      with qs Cons assms have "stripPrefix a' rest = None" "rest \<noteq> b'" by (auto simp add: stripPrefix_hd)
      with 3 qs Cons assms show ?thesis
        by (simp add: via_def lookup_Cons stripPrefix_app)
    qed
  qed
qed

lemma map_of_mapSet: "map_of (mapSet k v cs) = (map_of cs)(k \<mapsto> v)"
  by (induction cs) (auto simp: fun_eq_iff)

lemma keys_mapSet:
  "map fst (mapSet k v cs) = (if k \<in> fst ` set cs then map fst cs else map fst cs @ [k])"
  by (induction cs) force+

lemma set_mapSet: "set (mapSet k v cs) \<subseteq> insert (k, v) (set cs)"
  by (induction cs) (auto split: if_splits)

lemma map_of_list_update:
  "j < length cs \<Longrightarrow> distinct (map fst cs) \<Longrightarrow>
   map_of (cs[j := (fst (cs ! j), v)]) = (map_of cs)(fst (cs ! j) \<mapsto> v)"
proof (induction cs arbitrary: j)
  case Nil
  then show ?case by simp
next
  case (Cons e es)
  show ?case
  proof (cases j)
    case 0
    then show ?thesis by (cases e) (auto simp: fun_eq_iff)
  next
    case (Suc i)
    with Cons.prems have i: "i < length es" "distinct (map fst es)" "fst e \<notin> fst ` set es" by auto
    then have "fst (es ! i) \<noteq> fst e" by (metis nth_mem image_eqI)
    with Suc Cons.IH [OF i(1,2)] show ?thesis by (cases e) (auto simp: fun_eq_iff)
  qed
qed

lemma map_of_nth:
  "j < length cs \<Longrightarrow> distinct (map fst cs) \<Longrightarrow> map_of cs (fst (cs ! j)) = Some (snd (cs ! j))"
  by (metis map_of_is_SomeI nth_mem prod.collapse)

lemma keys_list_update: "j < length cs \<Longrightarrow> map fst (cs[j := (fst (cs ! j), v)]) = map fst cs"
  by (simp add: map_update list_update_same_conv)

lemma firstSharing_None: "firstSharing cs ws = None \<Longrightarrow> e \<in> set cs \<Longrightarrow> findCommonPrefix (phrase (snd e)) ws = 0"
  by (induction cs ws rule: firstSharing.induct) (auto split: if_splits)

lemma wellFormed_RadixNode:
  "wellFormed (RadixNode p r e cs) \<longleftrightarrow> distinct (map fst cs) \<and>
     (\<forall>entry \<in> set cs.
        phrase (snd entry) \<noteq> [] \<and> fst entry = hd (phrase (snd entry)) \<and> wellFormed (snd entry))"
  by (simp add: wellFormed.simps [of "RadixNode p r e cs"])

lemma wellFormed_cong: "children a = children b \<Longrightarrow> wellFormed a = wellFormed b"
  by (simp add: wellFormed.simps [of a] wellFormed.simps [of b])

lemma firstSharing_None_key:
  assumes "wellFormed node" "ws \<noteq> []" "firstSharing (children node) ws = None"
  shows "hd ws \<notin> fst ` set (children node)"
proof
  assume "hd ws \<in> fst ` set (children node)"
  then obtain e where e: "e \<in> set (children node)" "fst e = hd ws" by auto
  with assms(1) have "phrase (snd e) \<noteq> []" "hd (phrase (snd e)) = hd ws"
    by (auto simp: wellFormed.simps [of node])
  with assms(2) have "0 < findCommonPrefix (phrase (snd e)) ws" by (simp add: fcp_pos)
  with firstSharing_None [OF assms(3) e(1)] show False by simp
qed

lemma lookup_Cons': "lookup node (w # ws) = viaO (map_of (children node) w) (w # ws)"
  by (simp add: lookup_Cons viaO_def)

lemma lookup_replace_child:
  assumes m: "map_of cs' = (map_of cs)(hd ws \<mapsto> c')"
    and v: "\<And>qs. via c' qs = (if qs = ws then Some (Some r) else viaO (map_of cs (hd ws)) qs)"
    and ws: "ws \<noteq> []"
  shows "lookup (RadixNode p rp e cs') qs =
         (if qs = ws then Some (Some r) else lookup (RadixNode p rp e cs) qs)"
proof (cases qs)
  case Nil
  with ws show ?thesis by (auto simp: lookup_Nil)
next
  case (Cons q qs')
  show ?thesis
  proof (cases "q = hd ws")
    case True
    with Cons m v [of qs] show ?thesis by (simp add: lookup_Cons' viaO_def)
  next
    case False
    with Cons ws have "qs \<noteq> ws" by auto
    with False Cons m show ?thesis by (simp add: lookup_Cons')
  qed
qed

lemma phrase_insertRecursive: "phrase (insertRecursive node ws r) = phrase node"
  by (simp add: insertRecursive.simps [of node ws r] Let_def split: option.splits)

lemma via_leaf: "ws \<noteq> [] \<Longrightarrow> via (RadixNode ws (Some r) True []) qs = (if qs = ws then Some (Some r) else None)"
  by (auto simp: via_def lookup_leaf stripPrefix_Some split: option.splits)

lemma insertRecursive_Nil:
  "insertRecursive node [] r = RadixNode (phrase node) (Some r) True (children node)"
  by (simp add: insertRecursive.simps [of node "[]" r])

lemma insertRecursive_None:
  "ws \<noteq> [] \<Longrightarrow> firstSharing (children node) ws = None \<Longrightarrow>
   insertRecursive node ws r =
     RadixNode (phrase node) (replacement node) (isEndOfWord node)
       (mapSet (hd ws) (RadixNode ws (Some r) True []) (children node))"
  by (simp add: insertRecursive.simps [of node ws r])

lemma insertRecursive_Some:
  "ws \<noteq> [] \<Longrightarrow> firstSharing (children node) ws = Some j \<Longrightarrow>
   insertRecursive node ws r =
     RadixNode (phrase node) (replacement node) (isEndOfWord node)
       ((children node)[j := (fst (children node ! j),
           splitChild (snd (children node ! j)) ws r
             (insertRecursive (snd (children node ! j))
                (drop (findCommonPrefix (phrase (snd (children node ! j))) ws) ws) r))])"
  by (simp add: insertRecursive.simps [of node ws r] splitChild_def Let_def)

text \<open>what the three cases do to the child that shares a prefix\<close>
lemma splitChild_props:
  assumes pos: "0 < findCommonPrefix (phrase child) ws"
    and rec: "findCommonPrefix (phrase child) ws = length (phrase child) \<Longrightarrow>
        phrase rec = phrase child \<and> wellFormed rec \<and>
        (\<forall>rest. lookup rec rest =
           (if rest = drop (length (phrase child)) ws then Some (Some r) else lookup child rest))"
    and wfc: "wellFormed child"
  shows "phrase (splitChild child ws r rec) \<noteq> []"
    and "hd (phrase (splitChild child ws r rec)) = hd (phrase child)"
    and "wellFormed (splitChild child ws r rec)"
    and "via (splitChild child ws r rec) qs = (if qs = ws then Some (Some r) else via child qs)"
proof -
  obtain p rc ec cc where child: "child = RadixNode p rc ec cc" by (cases child)
  define n where "n = findCommonPrefix p ws"
  from fcp_split [of p ws] obtain c a' b' where
    d: "p = c @ a'" "ws = c @ b'" "length c = n" "a' \<noteq> [] \<longrightarrow> b' \<noteq> [] \<longrightarrow> hd a' \<noteq> hd b'"
    unfolding n_def by blast
  from pos child d have c: "c \<noteq> []" by (auto simp: n_def)
  have wfa: "wellFormed (RadixNode a' rc ec cc)" using wfc child wellFormed_cong [of child "RadixNode a' rc ec cc"] by simp
  consider (one) "a' = []" | (two) "a' \<noteq> []" "b' = []" | (three) "a' \<noteq> []" "b' \<noteq> []" by blast
  then have "phrase (splitChild child ws r rec) \<noteq> [] \<and>
    hd (phrase (splitChild child ws r rec)) = hd (phrase child) \<and>
    wellFormed (splitChild child ws r rec) \<and>
    via (splitChild child ws r rec) qs = (if qs = ws then Some (Some r) else via child qs)"
  proof cases
    case one
    with d child have n: "findCommonPrefix (phrase child) ws = length (phrase child)" by (simp add: n_def)
    with child have s: "splitChild child ws r rec = rec" by (simp add: splitChild_def)
    from rec [OF n] one d child have r: "phrase rec = c" "wellFormed rec"
      "\<And>rest. lookup rec rest = (if rest = b' then Some (Some r) else lookup child rest)" by auto
    have "via rec qs = (if qs = ws then Some (Some r) else via child qs)"
    proof (cases "stripPrefix c qs")
      case None
      then have "qs \<noteq> ws" using d by (auto simp: stripPrefix_None)
      with None r child one d show ?thesis by (simp add: via_def)
    next
      case (Some rest)
      then have "qs = c @ rest" by (simp add: stripPrefix_Some)
      with r child one d show ?thesis by (simp add: via_def)
    qed
    with s r c child one d show ?thesis by simp
  next
    case two
    with d child n_def have s: "splitChild child ws r rec =
       RadixNode c (Some r) True (mapSet (hd a') (RadixNode a' rc ec cc) [])"
      by (simp add: splitChild_def nth_append hd_conv_nth)
    have "wellFormed (RadixNode c (Some r) True (mapSet (hd a') (RadixNode a' rc ec cc) []))"
      using two wfa by (simp add: wellFormed_RadixNode [of c])
    with s c two d child via_case2 [of a' c r rc ec cc qs] show ?thesis by simp
  next
    case three
    with d have ne: "hd a' \<noteq> hd b'" by simp
    from three d child n_def have s: "splitChild child ws r rec =
       RadixNode c None False
         (mapSet (hd b') (RadixNode b' (Some r) True [])
            (mapSet (hd a') (RadixNode a' rc ec cc) []))"
      by (simp add: splitChild_def nth_append hd_conv_nth)
    have "wellFormed (RadixNode b' (Some r) True [])" by (simp add: wellFormed_RadixNode)
    with ne three wfa have "wellFormed (RadixNode c None False
         (mapSet (hd b') (RadixNode b' (Some r) True [])
            (mapSet (hd a') (RadixNode a' rc ec cc) [])))"
      by (simp add: wellFormed_RadixNode [of c])
    with s c three d child ne via_case3 [of a' b' c r rc ec cc qs] show ?thesis by simp
  qed
  then show "phrase (splitChild child ws r rec) \<noteq> []"
    and "hd (phrase (splitChild child ws r rec)) = hd (phrase child)"
    and "wellFormed (splitChild child ws r rec)"
    and "via (splitChild child ws r rec) qs = (if qs = ws then Some (Some r) else via child qs)"
    by simp_all
qed

lemma insertRecursive_correct:
  "wellFormed node \<Longrightarrow>
     wellFormed (insertRecursive node ws r) \<and>
     (\<forall>qs. lookup (insertRecursive node ws r) qs =
        (if qs = ws then Some (Some r) else lookup node qs))"
proof (induction node ws r rule: insertRecursive.induct)
  case (1 node ws r)
  show ?case
  proof (cases "ws = []")
    case True
    have "lookup (RadixNode (phrase node) (Some r) True (children node)) qs =
          (if qs = [] then Some (Some r) else lookup node qs)" for qs
      by (cases qs) (simp_all add: lookup_Nil lookup_Cons)
    moreover have "wellFormed (RadixNode (phrase node) (Some r) True (children node))"
      using "1.prems" wellFormed_cong [of node "RadixNode (phrase node) (Some r) True (children node)"] by simp
    ultimately show ?thesis using True by (simp add: insertRecursive_Nil)
  next
    case ws: False
    obtain p rp e cs where node: "node = RadixNode p rp e cs" by (cases node)
    from "1.prems" node have dist: "distinct (map fst cs)"
      and ent: "\<And>entry. entry \<in> set cs \<Longrightarrow>
         phrase (snd entry) \<noteq> [] \<and> fst entry = hd (phrase (snd entry)) \<and> wellFormed (snd entry)"
      by (auto simp: wellFormed_RadixNode)
    show ?thesis
    proof (cases "firstSharing (children node) ws")
      case None
      let ?leaf = "RadixNode ws (Some r) True []"
      from firstSharing_None_key [OF "1.prems" ws None] node
      have nk: "hd ws \<notin> fst ` set cs" by simp
      then have mo: "map_of cs (hd ws) = None" by (simp add: map_of_eq_None_iff)
      have "lookup (RadixNode p rp e (mapSet (hd ws) ?leaf cs)) qs =
            (if qs = ws then Some (Some r) else lookup (RadixNode p rp e cs) qs)" for qs
      proof (rule lookup_replace_child [OF _ _ ws])
        show "map_of (mapSet (hd ws) ?leaf cs) = (map_of cs)(hd ws \<mapsto> ?leaf)"
          by (rule map_of_mapSet)
        show "via ?leaf qs' = (if qs' = ws then Some (Some r) else viaO (map_of cs (hd ws)) qs')" for qs'
          using via_leaf [OF ws, of r qs'] mo by (simp add: viaO_def)
      qed
      moreover have "wellFormed (RadixNode p rp e (mapSet (hd ws) ?leaf cs))"
        using dist ent nk ws set_mapSet [of "hd ws" ?leaf cs]
        by (auto simp: wellFormed_RadixNode [of p] wellFormed_RadixNode [of ws] keys_mapSet)
      ultimately show ?thesis using None ws node by (simp add: insertRecursive_None)
    next
      case (Some j)
      define child where "child = snd (cs ! j)"
      define rec where "rec = insertRecursive child (drop (findCommonPrefix (phrase child) ws) ws) r"
      define child' where "child' = splitChild child ws r rec"
      from firstSharing_Some [OF Some] node
      have j: "j < length cs" and pos: "0 < findCommonPrefix (phrase child) ws"
        by (simp_all add: child_def)
      from j have mem: "cs ! j \<in> set cs" by simp
      from ent [OF mem] have wfc: "wellFormed child" and pne: "phrase child \<noteq> []"
        and key: "fst (cs ! j) = hd (phrase child)" by (simp_all add: child_def)
      from pos have hd: "hd (phrase child) = hd ws" by (simp add: fcp_pos)
      have recp: "findCommonPrefix (phrase child) ws = length (phrase child) \<Longrightarrow>
        phrase rec = phrase child \<and> wellFormed rec \<and>
        (\<forall>rest. lookup rec rest =
           (if rest = drop (length (phrase child)) ws then Some (Some r) else lookup child rest))"
        using "1.IH" [OF ws Some refl refl refl _ ] wfc node
        by (simp add: rec_def child_def phrase_insertRecursive)
      note sc = splitChild_props [OF pos recp wfc, folded child'_def]
      have eq: "insertRecursive node ws r = RadixNode p rp e (cs[j := (hd ws, child')])"
        using insertRecursive_Some [OF ws Some, of r] node key hd
        by (simp add: child'_def rec_def child_def)
      have mo: "map_of cs (hd ws) = Some child"
        using map_of_nth [OF j dist] key hd by (simp add: child_def)
      have mo': "map_of (cs[j := (hd ws, child')]) = (map_of cs)(hd ws \<mapsto> child')"
        using map_of_list_update [OF j dist, of child'] key hd by simp
      have "lookup (RadixNode p rp e (cs[j := (hd ws, child')])) qs =
            (if qs = ws then Some (Some r) else lookup (RadixNode p rp e cs) qs)" for qs
        by (rule lookup_replace_child [OF mo' _ ws]) (simp add: sc(4) mo viaO_def)
      moreover have "wellFormed (RadixNode p rp e (cs[j := (hd ws, child')]))"
      proof -
        have "map fst (cs[j := (hd ws, child')]) = map fst cs"
          using keys_list_update [OF j, of child'] key hd by simp
        moreover have "set (cs[j := (hd ws, child')]) \<subseteq> insert (hd ws, child') (set cs)"
          by (rule set_update_subset_insert)
        ultimately show ?thesis using dist ent sc(1,2,3) hd
          by (auto simp: wellFormed_RadixNode [of p])
      qed
      ultimately show ?thesis using eq node by simp
    qed
  qed
qed

section \<open>The search finds the longest stored prefix\<close>

lemma matchesAt_iff: "matchesAt p words index \<longleftrightarrow> stripPrefix p (drop index words) \<noteq> None"
proof (induction p arbitrary: index)
  case Nil
  show ?case by simp
next
  case (Cons x ps)
  show ?case
  proof (cases "index < length words")
    case True
    then have "drop index words = words ! index # drop (Suc index) words"
      by (simp add: Cons_nth_drop_Suc)
    with True Cons [of "Suc index"] show ?thesis by auto
  next
    case False
    then show ?thesis by simp
  qed
qed

lemma foldl_id: "(\<And>b e. e \<in> set cs \<Longrightarrow> f b e = b) \<Longrightarrow> foldl f b cs = b"
  by (induction cs arbitrary: b) simp_all

lemma foldl_one:
  "distinct (map fst cs) \<Longrightarrow> map_of cs k = Some c \<Longrightarrow>
   (\<And>b e. e \<in> set cs \<Longrightarrow> fst e \<noteq> k \<Longrightarrow> f b e = b) \<Longrightarrow> foldl f b cs = f b (k, c)"
proof (induction cs arbitrary: b)
  case Nil
  then show ?case by simp
next
  case (Cons e es)
  show ?case
  proof (cases "fst e = k")
    case True
    with Cons.prems(2) have e: "e = (k, c)" by (cases e) simp
    from True Cons.prems(1) have "k \<notin> fst ` set es" by simp
    then have "\<And>x. x \<in> set es \<Longrightarrow> fst x \<noteq> k" by blast
    with Cons.prems(3) have "foldl f (f b e) es = f b e" by (intro foldl_id) simp
    with e show ?thesis by simp
  next
    case False
    with Cons.prems have "f b e = b" "map_of es k = Some c" "distinct (map fst es)"
      by (auto split: if_splits)
    with Cons.IH [of b] Cons.prems(3) show ?thesis by simp
  qed
qed

lemma isLongest_own:
  assumes "\<And>k. 0 < k \<Longrightarrow> k \<le> length rest \<Longrightarrow> lookup node (take k rest) = None"
  shows "isLongest (lookup node) rest (own node 0)"
proof (cases "isEndOfWord node")
  case True
  with assms show ?thesis by (simp add: isLongest_def own_def lookup_Nil)
next
  case False
  have "lookup node (take k rest) = None" if "k \<le> length rest" for k
    using that assms [of k] False by (cases "k = 0") (simp_all add: lookup_Nil)
  with False show ?thesis by (simp add: isLongest_def own_def)
qed

lemma stripPrefix_take:
  "stripPrefix p (take k (p @ rest')) = (if length p \<le> k then Some (take (k - length p) rest') else None)"
proof (cases "length p \<le> k")
  case True
  then show ?thesis by (simp add: stripPrefix_Some)
next
  case False
  then have "length (take k (p @ rest')) < length p" by simp
  then have "stripPrefix p (take k (p @ rest')) = None"
    by (metis stripPrefix_None length_append not_add_less1)
  with False show ?thesis by simp
qed

lemma stripPrefix_take_None: "stripPrefix p rest = None \<Longrightarrow> stripPrefix p (take k rest) = None"
  by (metis stripPrefix_None append_take_drop_id append.assoc)

text \<open>lookups of prefixes of the input, at a node whose child for the first word is known\<close>
lemma lookup_take_miss:
  assumes "\<And>c. map_of (children node) (hd rest) = Some c \<Longrightarrow> stripPrefix (phrase c) rest = None"
    and "0 < k" "rest \<noteq> []"
  shows "lookup node (take k rest) = None"
proof (cases rest)
  case Nil
  with assms show ?thesis by simp
next
  case (Cons w rest0)
  from \<open>0 < k\<close> obtain k0 where k: "k = Suc k0" by (cases k) auto
  show ?thesis
  proof (cases "map_of (children node) w")
    case None
    with Cons k show ?thesis by (simp add: lookup_Cons' viaO_def)
  next
    case (Some c)
    with assms(1) [of c] Cons have "stripPrefix (phrase c) rest = None" by simp
    then have "stripPrefix (phrase c) (take k rest) = None"
      by (rule stripPrefix_take_None)
    with Some Cons k show ?thesis by (simp add: lookup_Cons' viaO_def via_def)
  qed
qed

lemma lookup_take_hit:
  assumes "map_of (children node) (hd (phrase c @ rest')) = Some c" "phrase c \<noteq> []" "0 < k"
  shows "lookup node (take k (phrase c @ rest')) =
         (if length (phrase c) \<le> k then lookup c (take (k - length (phrase c)) rest') else None)"
proof -
  obtain w rest0 where r: "phrase c @ rest' = w # rest0" using assms(2) by (cases "phrase c") auto
  from \<open>0 < k\<close> obtain k0 where k: "k = Suc k0" by (cases k) auto
  have "lookup node (take k (phrase c @ rest')) = via c (take k (phrase c @ rest'))"
    using assms(1) r k by (simp add: lookup_Cons' viaO_def)
  then show ?thesis by (simp add: via_def stripPrefix_take del: take_append)
qed

lemma shift_own: "shift m (own node 0) = own node m"
  by (simp add: shift_def own_def)

lemma isLongest_child_None:
  assumes hit: "\<And>k. 0 < k \<Longrightarrow> lookup node (take k (p @ rest')) =
                 (if length p \<le> k then lookup c (take (k - length p) rest') else None)"
    and c: "isLongest (lookup c) rest' None"
  shows "isLongest (lookup node) (p @ rest') (own node 0)"
proof (rule isLongest_own)
  fix k assume k: "0 < k" "k \<le> length (p @ rest')"
  then have "k - length p \<le> length rest'" by simp
  with c have "lookup c (take (k - length p) rest') = None" by (simp add: isLongest_def)
  with hit [OF k(1)] show "lookup node (take k (p @ rest')) = None" by simp
qed

lemma isLongest_child_Some:
  assumes hit: "\<And>k. 0 < k \<Longrightarrow> lookup node (take k (p @ rest')) =
                 (if length p \<le> k then lookup c (take (k - length p) rest') else None)"
    and c: "isLongest (lookup c) rest' (Some (k', v))"
    and p: "p \<noteq> []"
  shows "isLongest (lookup node) (p @ rest') (Some (length p + k', v))"
proof -
  from c have k': "k' \<le> length rest'" and v: "lookup c (take k' rest') = Some v"
    and above: "\<And>j. k' < j \<Longrightarrow> j \<le> length rest' \<Longrightarrow> lookup c (take j rest') = None"
    by (simp_all add: isLongest_def)
  from p have pos: "0 < length p + k'" by simp
  have "lookup node (take (length p + k') (p @ rest')) = Some v"
    using hit [OF pos] v by simp
  moreover have "lookup node (take j (p @ rest')) = None"
    if "length p + k' < j" "j \<le> length (p @ rest')" for j
  proof -
    from that have "0 < j" "length p \<le> j" "k' < j - length p" "j - length p \<le> length rest'" by auto
    with hit [of j] above [of "j - length p"] show ?thesis by simp
  qed
  ultimately show ?thesis using k' by (simp add: isLongest_def)
qed

lemma findLongestMatchRecursive_isLongest:
  "wellFormed node \<Longrightarrow>
   \<exists>res. findLongestMatchRecursive node words index m = shift m res \<and>
         isLongest (lookup node) (drop index words) res"
proof (induction node words index m rule: findLongestMatchRecursive.induct)
  case (1 node words index m)
  show ?case
  proof (cases "length words \<le> index")
    case True
    then have "findLongestMatchRecursive node words index m = own node m"
      by (simp add: findLongestMatchRecursive.simps [of node words index m] own_def)
    moreover from True have "isLongest (lookup node) (drop index words) (own node 0)"
      by (intro isLongest_own) simp
    ultimately show ?thesis using shift_own by metis
  next
    case False
    define rest where "rest = drop index words"
    define w where "w = words ! index"
    from False have rest: "rest \<noteq> []" "hd rest = w" "length rest = length words - index"
      by (simp_all add: rest_def w_def hd_drop_conv_nth)
    define step where "step = (\<lambda>bestMatch (entry :: string \<times> RadixNode).
                 let child = snd entry in
                 if index + length (phrase child) > length words then bestMatch
                 else if matchesAt (phrase child) words index then
                   (case findLongestMatchRecursive child words (index + length (phrase child))
                           (m + length (phrase child)) of
                      None \<Rightarrow> bestMatch
                    | Some match \<Rightarrow>
                        (case bestMatch of
                           None \<Rightarrow> Some match
                         | Some best \<Rightarrow> if fst match > fst best then Some match else bestMatch))
                 else bestMatch)"
    have find: "findLongestMatchRecursive node words index m = foldl step (own node m) (children node)"
      using False by (simp add: findLongestMatchRecursive.simps [of node words index m] own_def step_def)
    from "1.prems" have dist: "distinct (map fst (children node))"
      and ent: "\<And>entry. entry \<in> set (children node) \<Longrightarrow>
         phrase (snd entry) \<noteq> [] \<and> fst entry = hd (phrase (snd entry)) \<and> wellFormed (snd entry)"
      by (auto simp: wellFormed.simps [of node])
    have other: "step b e = b" if "e \<in> set (children node)" "fst e \<noteq> w" for b e
    proof -
      from ent [OF that(1)] that(2) rest have "stripPrefix (phrase (snd e)) rest = None"
        by (intro stripPrefix_hd) auto
      then have "\<not> matchesAt (phrase (snd e)) words index" by (simp add: matchesAt_iff rest_def)
      then show ?thesis by (simp add: step_def Let_def)
    qed
    have miss: "isLongest (lookup node) rest (own node 0)"
      if "\<And>c. map_of (children node) (hd rest) = Some c \<Longrightarrow> stripPrefix (phrase c) rest = None"
      using that rest(1) by (intro isLongest_own lookup_take_miss)
    show ?thesis
    proof (cases "map_of (children node) w")
      case None
      then have "\<And>e. e \<in> set (children node) \<Longrightarrow> fst e \<noteq> w"
        by (metis map_of_eq_None_iff image_eqI)
      with other have "foldl step (own node m) (children node) = own node m"
        by (intro foldl_id) simp
      moreover have "isLongest (lookup node) rest (own node 0)"
        using None rest by (intro miss) simp
      ultimately show ?thesis using find shift_own unfolding rest_def by metis
    next
      case (Some c)
      then have mem: "(w, c) \<in> set (children node)" by (rule map_of_SomeD)
      from ent [OF mem] have pne: "phrase c \<noteq> []" and wfc: "wellFormed c" by simp_all
      have fold: "foldl step (own node m) (children node) = step (own node m) (w, c)"
        using dist Some other by (rule foldl_one)
      show ?thesis
      proof (cases "stripPrefix (phrase c) rest")
        case None
        then have "\<not> matchesAt (phrase c) words index" by (simp add: matchesAt_iff rest_def)
        then have "step (own node m) (w, c) = own node m" by (simp add: step_def Let_def)
        moreover have "isLongest (lookup node) rest (own node 0)"
          using None Some rest by (intro miss) simp
        ultimately show ?thesis using find fold shift_own unfolding rest_def by metis
      next
        case (Some rest')
        then have split: "rest = phrase c @ rest'" by (simp add: stripPrefix_Some)
        with rest(3) False have fits: "\<not> length words < index + length (phrase c)" by simp
        from Some have m: "matchesAt (phrase c) words index" by (simp add: matchesAt_iff rest_def)
        from split have rest': "drop (index + length (phrase c)) words = rest'"
          by (metis rest_def add.commute append_eq_conv_conj drop_drop)
        have sndc: "c = snd (w, c)" by simp
        from "1.IH" [OF False mem sndc fits m wfc] rest'
        obtain res' where
          rec: "findLongestMatchRecursive c words (index + length (phrase c)) (m + length (phrase c)) =
                 shift (m + length (phrase c)) res'"
          and long: "isLongest (lookup c) rest' res'" by auto
        have hit: "lookup node (take k (phrase c @ rest')) =
                 (if length (phrase c) \<le> k then lookup c (take (k - length (phrase c)) rest') else None)"
          if "0 < k" for k
          using \<open>map_of (children node) w = Some c\<close> rest(2) split pne that
          by (intro lookup_take_hit) simp_all
        show ?thesis
        proof (cases res')
          case None
          with rec fits m have "step (own node m) (w, c) = own node m"
            by (simp add: step_def Let_def shift_def)
          moreover have "isLongest (lookup node) rest (own node 0)"
            unfolding split using hit long None by (intro isLongest_child_None) simp_all
          ultimately show ?thesis using find fold shift_own unfolding rest_def by metis
        next
          case (Some kv)
          obtain k' v where kv: "kv = (k', v)" by (cases kv)
          from pne have "0 < length (phrase c)" by simp
          with Some rec fits m kv
          have "step (own node m) (w, c) = shift m (Some (length (phrase c) + k', v))"
            by (simp add: step_def Let_def shift_def own_def add.assoc)
          moreover have "isLongest (lookup node) rest (Some (length (phrase c) + k', v))"
            unfolding split using hit long Some kv pne by (intro isLongest_child_Some) simp_all
          ultimately show ?thesis using find fold unfolding rest_def by metis
        qed
      qed
    qed
  qed
qed

lemma splitOn_nonempty: "splitOn sep s \<noteq> []"
  by (induction s) (auto split: list.splits)

lemma phraseWords_nonempty: "phraseWords p \<noteq> []"
  by (simp add: phraseWords_def splitOn_nonempty)

lemma lastInserted_snoc:
  "lastInserted (ins @ [entry]) ws =
     (if phraseWords (fst entry) = ws then Some (snd entry) else lastInserted ins ws)"
  by (induction ins) (auto split: option.splits)

lemma lastInserted_Nil: "lastInserted ins [] = None"
  by (induction ins) (simp_all add: phraseWords_nonempty)

lemma build_snoc: "build (ins @ [entry]) = insert_tree (build ins) (fst entry) (snd entry)"
  by (simp add: build_def)

lemma insert_tree_correct:
  "wellFormed t \<Longrightarrow> wellFormed (insert_tree t p r) \<and>
     lookup (insert_tree t p r) qs = (if qs = phraseWords p then Some (Some r) else lookup t qs)"
  using insertRecursive_correct [of t "phraseWords p" r] by (simp add: insert_tree_def)

lemma lookup_newTree: "lookup newTree qs = None"
  by (cases qs) (simp_all add: newTree_def lookup_Nil lookup_Cons)

lemma wellFormed_newTree: "wellFormed newTree"
  by (simp add: newTree_def wellFormed_RadixNode)

lemma build_correct:
  "wellFormed (build ins) \<and> lookup (build ins) qs = map_option Some (lastInserted ins qs)"
proof (induction ins arbitrary: qs rule: rev_induct)
  case Nil
  show ?case by (simp add: build_def wellFormed_newTree lookup_newTree)
next
  case (snoc entry ins)
  then show ?case
    using insert_tree_correct [of "build ins" "fst entry" "snd entry" qs]
    by (simp add: build_snoc lastInserted_snoc)
qed

lemma isLongest_unique: "isLongest d rest a \<Longrightarrow> isLongest d rest b \<Longrightarrow> a = b"
proof (cases a)
  case None
  assume "isLongest d rest a" "isLongest d rest b"
  with None show ?thesis by (cases b) (auto simp: isLongest_def)
next
  case (Some kv)
  assume a: "isLongest d rest a" and b: "isLongest d rest b"
  obtain k v where kv: "kv = (k, v)" by (cases kv)
  show ?thesis
  proof (cases b)
    case None
    with a b Some kv show ?thesis by (auto simp: isLongest_def)
  next
    case (Some kv')
    obtain k' v' where kv': "kv' = (k', v')" by (cases kv')
    from a \<open>a = Some kv\<close> kv have a': "k \<le> length rest" "d (take k rest) = Some v"
      "\<And>j. k < j \<Longrightarrow> j \<le> length rest \<Longrightarrow> d (take j rest) = None"
      by (simp_all add: isLongest_def)
    from b Some kv' have b': "k' \<le> length rest" "d (take k' rest) = Some v'"
      "\<And>j. k' < j \<Longrightarrow> j \<le> length rest \<Longrightarrow> d (take j rest) = None"
      by (simp_all add: isLongest_def)
    have "k = k'"
    proof (rule ccontr)
      assume "k \<noteq> k'"
      then consider "k < k'" | "k' < k" by linarith
      then show False
      proof cases
        case 1
        with a'(3) [of k'] b'(1,2) show False by simp
      next
        case 2
        with b'(3) [of k] a'(1,2) show False by simp
      qed
    qed
    with a'(2) b'(2) \<open>a = Some kv\<close> Some kv kv' show ?thesis by simp
  qed
qed

section \<open>The search returns the longest stored phrase\<close>

lemma findLongestMatch_isLongest:
  "wellFormed t \<Longrightarrow> isLongest (lookup t) (drop i ws) (findLongestMatch t ws i)"
  using findLongestMatchRecursive_isLongest [of t ws i 0]
  by (auto simp: findLongestMatch_def shift_def option.map_ident split_def)

lemma findLongestMatch_exact:
  assumes "wellFormed t" "lookup t ws = Some v"
  shows "findLongestMatch t ws 0 = Some (length ws, v)"
proof -
  have "isLongest (lookup t) ws (Some (length ws, v))"
    using assms(2) by (simp add: isLongest_def)
  moreover have "isLongest (lookup t) ws (findLongestMatch t ws 0)"
    using findLongestMatch_isLongest [OF assms(1), of 0 ws] by simp
  ultimately show ?thesis by (rule isLongest_unique [symmetric])
qed

text \<open>
  C1. On a tree built from a fresh root by any sequence of \<open>insert\<close> calls,
  \<open>findLongestMatch(ws, i)\<close> returns \<open>(k, r)\<close> where \<open>ws[i..i+k)\<close> is the word
  sequence of an inserted phrase, \<open>r\<close> is the replacement of the most recent insert
  with that word sequence, and no longer slice of \<open>ws\<close> from \<open>i\<close> is the word sequence of
  an inserted phrase; it returns no match exactly when no slice from \<open>i\<close> is one.
\<close>

theorem findLongestMatch_longest_inserted:
  "(case findLongestMatch (build ins) ws i of
      None \<Rightarrow> \<forall>k. i + k \<le> length ws \<longrightarrow> lastInserted ins (take k (drop i ws)) = None
    | Some (k, r) \<Rightarrow>
        i + k \<le> length ws \<and> r \<noteq> None \<and> lastInserted ins (take k (drop i ws)) = r \<and>
        (\<forall>k'. k < k' \<and> i + k' \<le> length ws \<longrightarrow> lastInserted ins (take k' (drop i ws)) = None))"
proof -
  have long: "isLongest (lookup (build ins)) (drop i ws) (findLongestMatch (build ins) ws i)"
    using build_correct [of ins] by (intro findLongestMatch_isLongest) simp
  have look: "lookup (build ins) qs = map_option Some (lastInserted ins qs)" for qs
    using build_correct [of ins qs] by simp
  show ?thesis
  proof (cases "findLongestMatch (build ins) ws i")
    case None
    with long look show ?thesis by (auto simp: isLongest_def)
  next
    case (Some kr)
    obtain k r where kr: "kr = (k, r)" by (cases kr)
    from long Some kr look have k: "k \<le> length ws - i"
      and r: "map_option Some (lastInserted ins (take k (drop i ws))) = Some r"
      and above: "\<And>k'. k < k' \<Longrightarrow> k' \<le> length ws - i \<Longrightarrow>
                    lastInserted ins (take k' (drop i ws)) = None"
      by (simp_all add: isLongest_def)
    have "k \<noteq> 0"
    proof
      assume "k = 0"
      with r show False by (simp add: lastInserted_Nil)
    qed
    with k have "i + k \<le> length ws" by simp
    moreover from r have "r \<noteq> None" "lastInserted ins (take k (drop i ws)) = r" by auto
    moreover have "lastInserted ins (take k' (drop i ws)) = None"
      if "k < k' \<and> i + k' \<le> length ws" for k'
    proof -
      from that have "k < k'" "k' \<le> length ws - i" by linarith+
      then show ?thesis by (rule above)
    qed
    ultimately show ?thesis using Some kr by simp
  qed
qed

theorem findLongestMatch_longest_inserted_witness:
  "findLongestMatch
     (build [(''one cat'', ''un gato''), (''one cat and two'', ''un gato y dos'')])
     [''one'', ''cat'', ''is'', ''here''] 0 = Some (2, Some ''un gato'') \<and>
   lastInserted [(''one cat'', ''un gato''), (''one cat and two'', ''un gato y dos'')]
     [''one'', ''cat''] = Some ''un gato'' \<and>
   lastInserted [(''one cat'', ''un gato''), (''one cat and two'', ''un gato y dos'')]
     [''one'', ''cat'', ''is''] = None \<and>
   lastInserted [(''one cat'', ''un gato''), (''one cat and two'', ''un gato y dos'')]
     [''one'', ''cat'', ''is'', ''here''] = None"
proof -
  let ?ins = "[(''one cat'', ''un gato''), (''one cat and two'', ''un gato y dos'')]"
  let ?ws = "[''one'', ''cat'', ''is'', ''here'']"
  have e: "findLongestMatch (build ?ins) ?ws 0 = Some (2, Some ''un gato'')"
    by code_simp
  from findLongestMatch_longest_inserted [where ins = ?ins and ws = ?ws and i = 0]
  have "lastInserted ?ins (take 2 (drop 0 ?ws)) = Some ''un gato'' \<and>
        (\<forall>k'. 2 < k' \<and> 0 + k' \<le> length ?ws \<longrightarrow> lastInserted ?ins (take k' (drop 0 ?ws)) = None)"
    unfolding e by (simp only: option.case prod.case) blast
  then have a: "lastInserted ?ins (take 2 (drop 0 ?ws)) = Some ''un gato''"
    and b: "\<And>k'. 2 < k' \<Longrightarrow> 0 + k' \<le> length ?ws \<Longrightarrow>
              lastInserted ?ins (take k' (drop 0 ?ws)) = None"
    by blast+
  from a b [of 3] b [of 4] e show ?thesis by (simp del: lastInserted.simps)
qed

text \<open>
  C3. A phrase \<open>p\<close> inserted with replacement \<open>r\<close> is still found, with \<open>r\<close>, after any
  later inserts of phrases whose word sequences differ from that of \<open>p\<close>:
  \<open>findLongestMatch\<close> on exactly the words of \<open>p\<close> from index 0 returns the number of
  words of \<open>p\<close> and \<open>r\<close>.
\<close>

theorem insert_keeps_earlier_phrase:
  assumes "\<forall>entry \<in> set later. phraseWords (fst entry) \<noteq> phraseWords p"
  shows "findLongestMatch (build (earlier @ (p, r) # later)) (phraseWords p) 0 =
         Some (length (phraseWords p), Some r)"
proof -
  from assms have "lastInserted ((p, r) # later) (phraseWords p) = Some r"
    by (induction later rule: rev_induct) (simp_all add: lastInserted_snoc flip: append_Cons)
  then have "lastInserted (earlier @ (p, r) # later) (phraseWords p) = Some r"
    by (induction earlier) simp_all
  then have "lookup (build (earlier @ (p, r) # later)) (phraseWords p) = Some (Some r)"
    using build_correct [of "earlier @ (p, r) # later" "phraseWords p"] by simp
  with build_correct [of "earlier @ (p, r) # later"] show ?thesis
    by (intro findLongestMatch_exact) simp_all
qed

theorem insert_keeps_earlier_phrase_witness:
  "phraseWords ''one cat and two'' \<noteq> phraseWords ''one cat'' \<and>
   findLongestMatch
     (build ([] @ (''one cat'', ''un gato'') # [(''one cat and two'', ''un gato y dos'')]))
     (phraseWords ''one cat'') 0 = Some (length (phraseWords ''one cat''), Some ''un gato'')"
proof -
  have d: "phraseWords ''one cat and two'' \<noteq> phraseWords ''one cat''"
    by code_simp
  then have h: "\<forall>entry \<in> set [(''one cat and two'', ''un gato y dos'')].
      phraseWords (fst entry) \<noteq> phraseWords ''one cat''"
    by simp
  from d insert_keeps_earlier_phrase [OF h, of "[]" "''un gato''"] show ?thesis by blast
qed

section \<open>The radix property\<close>

lemma sameFirstWord_hd: "sameFirstWord a b \<Longrightarrow> hd a = hd b"
  by (induction a b rule: sameFirstWord.induct) simp_all

lemma noSharedFirstWord_keys:
  "distinct (map fst cs) \<Longrightarrow>
   (\<And>entry. entry \<in> set cs \<Longrightarrow> fst entry = hd (phrase (snd entry))) \<Longrightarrow>
   noSharedFirstWord cs"
proof (induction cs)
  case Nil
  show ?case by simp
next
  case (Cons e es)
  have "\<not> sameFirstWord (phrase (snd e)) (phrase (snd other))" if "other \<in> set es" for other
  proof
    assume "sameFirstWord (phrase (snd e)) (phrase (snd other))"
    then have "hd (phrase (snd e)) = hd (phrase (snd other))" by (rule sameFirstWord_hd)
    with Cons.prems(2) [of e] Cons.prems(2) [of other] that have "fst e = fst other" by simp
    with Cons.prems(1) that show False by force
  qed
  with Cons show ?case by simp
qed

lemma wellFormed_radixProperty: "wellFormed node \<Longrightarrow> radixProperty node"
proof (induction node rule: radixProperty.induct)
  case (1 node)
  from "1.prems" have dist: "distinct (map fst (children node))"
    and ent: "\<And>entry. entry \<in> set (children node) \<Longrightarrow>
         phrase (snd entry) \<noteq> [] \<and> fst entry = hd (phrase (snd entry)) \<and> wellFormed (snd entry)"
    by (auto simp: wellFormed.simps [of node])
  from dist ent have "noSharedFirstWord (children node)" by (intro noSharedFirstWord_keys) simp_all
  moreover from "1.IH" ent have "\<forall>entry \<in> set (children node). radixProperty (snd entry)" by simp
  ultimately show ?case by (simp add: radixProperty.simps [of node])
qed

text \<open>
  C4. After every finite sequence of \<open>insert\<close> calls on a fresh tree, no node has two
  entries in its children map whose phrase labels begin with the same word.
\<close>

theorem insert_keeps_radix_property: "radixProperty (build ins)"
  using build_correct [of ins] by (intro wellFormed_radixProperty) simp

theorem insert_keeps_radix_property_witness:
  "build [(''big cat'', ''gato grande''), (''big dog'', ''perro grande''), (''small'', ''chico'')] =
     RadixNode [] None False
       [(''big'', RadixNode [''big''] None False
           [(''cat'', RadixNode [''cat''] (Some ''gato grande'') True []),
            (''dog'', RadixNode [''dog''] (Some ''perro grande'') True [])]),
        (''small'', RadixNode [''small''] (Some ''chico'') True [])] \<and>
   radixProperty (RadixNode [] None False
       [(''big'', RadixNode [''big''] None False
           [(''cat'', RadixNode [''cat''] (Some ''gato grande'') True []),
            (''dog'', RadixNode [''dog''] (Some ''perro grande'') True [])]),
        (''small'', RadixNode [''small''] (Some ''chico'') True [])])"
proof -
  have e: "build [(''big cat'', ''gato grande''), (''big dog'', ''perro grande''), (''small'', ''chico'')] =
     RadixNode [] None False
       [(''big'', RadixNode [''big''] None False
           [(''cat'', RadixNode [''cat''] (Some ''gato grande'') True []),
            (''dog'', RadixNode [''dog''] (Some ''perro grande'') True [])]),
        (''small'', RadixNode [''small''] (Some ''chico'') True [])]"
    by code_simp
  from insert_keeps_radix_property
    [of "[(''big cat'', ''gato grande''), (''big dog'', ''perro grande''), (''small'', ''chico'')]"]
  show ?thesis unfolding e by simp
qed

section \<open>Re-insertion\<close>

lemma concat_empty: "(\<And>e. e \<in> set cs \<Longrightarrow> g e = []) \<Longrightarrow> concat (map g cs) = []"
  by (induction cs) simp_all

lemma concat_one:
  "distinct (map fst cs) \<Longrightarrow> map_of cs k = Some c \<Longrightarrow>
   (\<And>e. e \<in> set cs \<Longrightarrow> fst e \<noteq> k \<Longrightarrow> g e = []) \<Longrightarrow> concat (map g cs) = g (k, c)"
proof (induction cs)
  case Nil
  then show ?case by simp
next
  case (Cons e es)
  show ?case
  proof (cases "fst e = k")
    case True
    with Cons.prems(2) have e: "e = (k, c)" by (cases e) simp
    from True Cons.prems(1) have "k \<notin> fst ` set es" by simp
    then have "\<And>x. x \<in> set es \<Longrightarrow> fst x \<noteq> k" by blast
    with Cons.prems(3) have "concat (map g es) = []" by (intro concat_empty) simp
    with e show ?thesis by simp
  next
    case False
    with Cons.prems have "g e = []" "map_of es k = Some c" "distinct (map fst es)"
      by (auto split: if_splits)
    with Cons.IH Cons.prems(3) show ?thesis by simp
  qed
qed

lemma filter_concat_map: "filter P (concat (map f xs)) = concat (map (\<lambda>x. filter P (f x)) xs)"
  by (induction xs) simp_all

text \<open>every end node below a node has a path that extends the node's own path\<close>
lemma endNodes_path:
  "e \<in> set (endNodes path node) \<Longrightarrow> \<exists>more. fst e = path @ phrase node @ more"
proof (induction path node arbitrary: e rule: endNodes.induct)
  case (1 path node)
  from "1.prems" consider "e = (path @ phrase node, replacement node)"
    | entry where "entry \<in> set (children node)" "e \<in> set (endNodes (path @ phrase node) (snd entry))"
    by (auto simp: endNodes.simps [of path node] split: if_splits)
  then show ?case
  proof cases
    case 1
    then show ?thesis by simp
  next
    case 2
    from "1.IH" [OF 2] obtain more where "fst e = (path @ phrase node) @ phrase (snd entry) @ more"
      by blast
    then show ?thesis by simp
  qed
qed

lemma endNodes_lookup:
  "wellFormed node \<Longrightarrow>
   filter (\<lambda>e. fst e = path @ phrase node @ ws) (endNodes path node) =
     (case lookup node ws of None \<Rightarrow> [] | Some v \<Rightarrow> [(path @ phrase node @ ws, v)])"
proof (induction path node arbitrary: ws rule: endNodes.induct)
  case (1 path node)
  let ?here = "path @ phrase node"
  let ?P = "\<lambda>e. fst e = ?here @ ws"
  define g where "g = (\<lambda>entry :: string \<times> RadixNode. filter ?P (endNodes ?here (snd entry)))"
  from "1.prems" have dist: "distinct (map fst (children node))"
    and ent: "\<And>entry. entry \<in> set (children node) \<Longrightarrow>
         phrase (snd entry) \<noteq> [] \<and> fst entry = hd (phrase (snd entry)) \<and> wellFormed (snd entry)"
    by (auto simp: wellFormed.simps [of node])
  have unfold: "filter ?P (endNodes path node) =
      (if isEndOfWord node \<and> ws = [] then [(?here, replacement node)] else []) @
      concat (map g (children node))"
    by (simp add: endNodes.simps [of path node] filter_concat_map g_def)
  have g_miss: "g entry = []"
    if "entry \<in> set (children node)" "stripPrefix (phrase (snd entry)) ws = None" for entry
  proof -
    have "\<not> ?P e" if "e \<in> set (endNodes ?here (snd entry))" for e
    proof
      assume "?P e"
      moreover from endNodes_path [OF that] obtain more
        where "fst e = ?here @ phrase (snd entry) @ more" by blast
      ultimately have "ws = phrase (snd entry) @ more" by simp
      with \<open>stripPrefix (phrase (snd entry)) ws = None\<close> show False
        by (simp add: stripPrefix_None)
    qed
    then show ?thesis by (simp add: g_def filter_empty_conv)
  qed
  have g_hit: "g entry = (case lookup (snd entry) rest of None \<Rightarrow> []
                          | Some v \<Rightarrow> [(?here @ ws, v)])"
    if "entry \<in> set (children node)" "ws = phrase (snd entry) @ rest" for entry rest
    using "1.IH" [OF that(1) , of rest] ent [OF that(1)] that(2)
    by (simp add: g_def split: option.splits)
  show ?case
  proof (cases ws)
    case Nil
    have "g entry = []" if "entry \<in> set (children node)" for entry
      using that ent [OF that] Nil by (intro g_miss) (simp_all add: stripPrefix_Nil2)
    then have "concat (map g (children node)) = []" by (intro concat_empty)
    with unfold Nil show ?thesis by (simp add: lookup_Nil)
  next
    case (Cons w ws')
    have other: "g entry = []" if "entry \<in> set (children node)" "fst entry \<noteq> w" for entry
      using that ent [OF that(1)] Cons by (intro g_miss stripPrefix_hd) simp_all
    show ?thesis
    proof (cases "map_of (children node) w")
      case None
      then have "\<And>e. e \<in> set (children node) \<Longrightarrow> fst e \<noteq> w"
        by (metis map_of_eq_None_iff image_eqI)
      with other have "concat (map g (children node)) = []" by (intro concat_empty) simp
      with unfold Cons None show ?thesis by (simp add: lookup_Cons)
    next
      case (Some c)
      then have mem: "(w, c) \<in> set (children node)" by (rule map_of_SomeD)
      from dist Some other have one: "concat (map g (children node)) = g (w, c)"
        by (rule concat_one)
      show ?thesis
      proof (cases "stripPrefix (phrase c) ws")
        case None
        with g_miss [OF mem] have "g (w, c) = []" by simp
        with unfold one Cons Some None show ?thesis by (simp add: lookup_Cons via_def)
      next
        case (Some rest)
        then have "ws = phrase c @ rest" by (simp add: stripPrefix_Some)
        with g_hit [OF mem, of rest]
        have "g (w, c) = (case lookup c rest of None \<Rightarrow> [] | Some v \<Rightarrow> [(?here @ ws, v)])"
          by simp
        with unfold one Cons \<open>map_of (children node) w = Some c\<close> Some show ?thesis
          by (simp add: lookup_Cons via_def split: option.splits)
      qed
    qed
  qed
qed

lemma phrase_build: "phrase (build ins) = []"
  by (induction ins rule: rev_induct)
    (simp_all add: build_def newTree_def insert_tree_def phrase_insertRecursive)

text \<open>
  C6. Inserting a phrase \<open>p\<close> with replacement \<open>r1\<close> and then again with \<open>r2\<close>, into any
  tree built by inserts, leaves exactly one end-of-word node whose labels from the root
  concatenate to the words of \<open>p\<close>; it holds \<open>r2\<close>, and \<open>findLongestMatch\<close> on exactly the
  words of \<open>p\<close> returns their number and \<open>r2\<close>.
\<close>

theorem reinsert_last_write_wins:
  "filter (\<lambda>e. fst e = phraseWords p)
     (endNodes [] (insert_tree (insert_tree (build ins) p r1) p r2)) = [(phraseWords p, Some r2)] \<and>
   findLongestMatch (insert_tree (insert_tree (build ins) p r1) p r2) (phraseWords p) 0 =
     Some (length (phraseWords p), Some r2)"
proof -
  let ?t = "insert_tree (insert_tree (build ins) p r1) p r2"
  have t: "?t = build ((ins @ [(p, r1)]) @ [(p, r2)])"
    by (simp only: build_snoc fst_conv snd_conv)
  have "lastInserted ((ins @ [(p, r1)]) @ [(p, r2)]) (phraseWords p) = Some r2"
    by (simp add: lastInserted_snoc del: append_assoc)
  with build_correct [of "(ins @ [(p, r1)]) @ [(p, r2)]" "phraseWords p"]
  have wf: "wellFormed ?t" and look: "lookup ?t (phraseWords p) = Some (Some r2)"
    unfolding t by simp_all
  have "phrase ?t = []" unfolding t by (rule phrase_build)
  with endNodes_lookup [OF wf, of "[]" "phraseWords p"] look
  have "filter (\<lambda>e. fst e = phraseWords p) (endNodes [] ?t) = [(phraseWords p, Some r2)]"
    by simp
  moreover from wf look
  have "findLongestMatch ?t (phraseWords p) 0 = Some (length (phraseWords p), Some r2)"
    by (rule findLongestMatch_exact)
  ultimately show ?thesis by simp
qed

section \<open>Tokenisation of the inserted phrase\<close>

lemma trim_whitespace:
  assumes "\<forall>c \<in> set p. isWhiteSpace c"
  shows "trim p = []"
proof -
  from assms have d: "dropWhile isWhiteSpace p = []" by simp
  show ?thesis unfolding trim_def d by simp
qed

lemma phraseWords_whitespace: "\<forall>c \<in> set p. isWhiteSpace c \<Longrightarrow> phraseWords p = [[]]"
  by (simp add: phraseWords_def trim_whitespace)

text \<open>
  C5, as stated, fails: \<open>insert\<close> with the empty phrase, or with a phrase of spaces only,
  raises nothing and adds a node. \<open>trim\<close> leaves the empty string, whose \<open>split(" ")\<close>
  is the one-word sequence of the empty word, and that sequence is stored like any other.
\<close>

theorem insert_blank_phrase_counterexample:
  "insert_tree newTree '''' ''x'' =
     RadixNode [] None False [('''', RadixNode [''''] (Some ''x'') True [])] \<and>
   insert_tree newTree ''   '' ''x'' =
     RadixNode [] None False [('''', RadixNode [''''] (Some ''x'') True [])]"
  by code_simp

text \<open>
  C5, amended. \<open>insert\<close> with a phrase that is empty or consists of white space only
  tokenises it to the sequence of one empty word and stores the replacement under that
  sequence, in any tree built by inserts: afterwards \<open>findLongestMatch([""], 0)\<close> returns
  one matched word and the replacement.
\<close>

theorem insert_blank_phrase:
  assumes "\<forall>c \<in> set p. isWhiteSpace c"
  shows "phraseWords p = [''''] \<and>
         findLongestMatch (insert_tree (build ins) p r) [''''] 0 = Some (1, Some r)"
proof -
  from assms have w: "phraseWords p = [[]]" by (rule phraseWords_whitespace)
  have "wellFormed (insert_tree (build ins) p r)"
    and "lookup (insert_tree (build ins) p r) [[]] = Some (Some r)"
    using insert_tree_correct [of "build ins" p r "[[]]"] build_correct [of ins] w by simp_all
  from findLongestMatch_exact [OF this] w show ?thesis by simp
qed

theorem insert_blank_phrase_witness:
  "phraseWords ''  '' = [''''] \<and>
   findLongestMatch (insert_tree (build [(''one cat'', ''un gato'')]) ''  '' ''x'') [''''] 0 =
     Some (1, Some ''x'')"
proof -
  have h: "\<forall>c \<in> set ''  ''. isWhiteSpace c" by (simp add: isWhiteSpace_def)
  from insert_blank_phrase [OF h] show ?thesis by blast
qed

lemma splitOn_no_sep: "sep \<notin> set w \<Longrightarrow> splitOn sep w = [w]"
  by (induction w) auto

lemma splitOn_append_sep: "sep \<notin> set w \<Longrightarrow> splitOn sep (w @ sep # rest) = w # splitOn sep rest"
  by (induction w) auto

lemma splitOn_joinWith:
  "ws \<noteq> [] \<Longrightarrow> \<forall>w \<in> set ws. sep \<notin> set w \<Longrightarrow> splitOn sep (joinWith sep ws) = ws"
  by (induction sep ws rule: joinWith.induct) (simp_all add: splitOn_no_sep splitOn_append_sep)

lemma joinWith_ends:
  "ws \<noteq> [] \<Longrightarrow> \<forall>w \<in> set ws. w \<noteq> [] \<Longrightarrow>
   joinWith sep ws \<noteq> [] \<and> hd (joinWith sep ws) = hd (hd ws) \<and>
   last (joinWith sep ws) = last (last ws)"
  by (induction sep ws rule: joinWith.induct) auto

lemma trim_padded:
  assumes pre: "\<forall>c \<in> set pre. isWhiteSpace c" and post: "\<forall>c \<in> set post. isWhiteSpace c"
    and s: "s \<noteq> []" "\<not> isWhiteSpace (hd s)" "\<not> isWhiteSpace (last s)"
  shows "trim (pre @ s @ post) = s"
proof -
  from pre have "dropWhile isWhiteSpace (pre @ s @ post) = dropWhile isWhiteSpace (s @ post)"
    by (intro dropWhile_append2) simp
  also from s have "\<dots> = s @ post" by (cases s) simp_all
  finally have front: "dropWhile isWhiteSpace (pre @ s @ post) = s @ post" .
  from post have "dropWhile isWhiteSpace (rev post @ rev s) = dropWhile isWhiteSpace (rev s)"
    by (intro dropWhile_append2) simp
  also from s have "\<dots> = rev s" by (cases s rule: rev_cases) simp_all
  finally show ?thesis by (simp add: trim_def front)
qed

text \<open>
  C9, amended. \<open>insert\<close> trims the phrase and splits it at every space. For a phrase
  made of non-empty words free of white space, joined by one space each, with any white
  space before and after, the stored word sequence is the sequence of those words, and
  the insert is the insert of the phrase without the surrounding white space.
\<close>

theorem insert_single_spaced_words:
  assumes "\<forall>c \<in> set pre. isWhiteSpace c" and "\<forall>c \<in> set post. isWhiteSpace c"
    and "ws \<noteq> []" and "\<forall>w \<in> set ws. w \<noteq> [] \<and> (\<forall>c \<in> set w. \<not> isWhiteSpace c)"
  shows "phraseWords (pre @ joinWith (CHR '' '') ws @ post) = ws \<and>
         insert_tree t (pre @ joinWith (CHR '' '') ws @ post) r =
           insert_tree t (joinWith (CHR '' '') ws) r"
proof -
  let ?s = "joinWith (CHR '' '') ws"
  from assms(3,4) have ends: "?s \<noteq> []" "hd ?s = hd (hd ws)" "last ?s = last (last ws)"
    using joinWith_ends [of ws "CHR '' ''"] by simp_all
  from assms(3,4) have "hd ws \<in> set ws" "last ws \<in> set ws" by simp_all
  with assms(4) have "hd (hd ws) \<in> set (hd ws)" "last (last ws) \<in> set (last ws)"
    and "\<forall>c \<in> set (hd ws). \<not> isWhiteSpace c" "\<forall>c \<in> set (last ws). \<not> isWhiteSpace c"
    by simp_all
  then have "\<not> isWhiteSpace (hd (hd ws))" "\<not> isWhiteSpace (last (last ws))" by blast+
  with ends have t1: "trim (pre @ ?s @ post) = ?s"
    by (intro trim_padded assms) simp_all
  from ends this \<open>\<not> isWhiteSpace (hd (hd ws))\<close> \<open>\<not> isWhiteSpace (last (last ws))\<close>
  have t2: "trim ?s = ?s" using trim_padded [of "[]" "[]" ?s] by simp
  have "isWhiteSpace (CHR '' '')" by (simp add: isWhiteSpace_def)
  with assms(4) have "\<forall>w \<in> set ws. CHR '' '' \<notin> set w" by blast
  with assms(3) have "splitOn (CHR '' '') ?s = ws" by (rule splitOn_joinWith)
  with t1 t2 show ?thesis by (simp add: phraseWords_def insert_tree_def)
qed

theorem insert_single_spaced_words_witness:
  "phraseWords (''  '' @ joinWith (CHR '' '') [''one'', ''cat''] @ [CHR 0x09]) = [''one'', ''cat''] \<and>
   insert_tree newTree (''  '' @ joinWith (CHR '' '') [''one'', ''cat''] @ [CHR 0x09]) ''un gato'' =
     insert_tree newTree (joinWith (CHR '' '') [''one'', ''cat'']) ''un gato''"
proof -
  have h1: "\<forall>c \<in> set ''  ''. isWhiteSpace c" by (simp add: isWhiteSpace_def)
  have h2: "\<forall>c \<in> set [CHR 0x09]. isWhiteSpace c" by (simp add: isWhiteSpace_def)
  have h3: "[''one'', ''cat''] \<noteq> []" by simp
  have h4: "\<forall>w \<in> set [''one'', ''cat'']. w \<noteq> [] \<and> (\<forall>c \<in> set w. \<not> isWhiteSpace c)"
    by (simp add: isWhiteSpace_def)
  from insert_single_spaced_words [OF h1 h2 h3 h4] show ?thesis by blast
qed

text \<open>
  C9, as stated, fails: two spaces between words give an empty word, a tab does not
  separate words at all, and a phrase inserted with two spaces is not matched by the
  words it was meant to hold.
\<close>

theorem insert_whitespace_runs_counterexample:
  "phraseWords ''a  b'' = [''a'', '''', ''b''] \<and>
   phraseWords [CHR ''a'', CHR 0x09, CHR ''b''] = [[CHR ''a'', CHR 0x09, CHR ''b'']] \<and>
   phraseWords ''a b'' = [''a'', ''b''] \<and>
   findLongestMatch (insert_tree newTree ''a  b'' ''x'') [''a'', ''b''] 0 = None \<and>
   findLongestMatch (insert_tree newTree ''a b'' ''x'') [''a'', ''b''] 0 = Some (2, Some ''x'')"
  by code_simp

section \<open>Sampling, batches and the dictionary\<close>

text \<open>
  C8. A count below 1 gives no sample. For a count above 1 the code takes
  \<open>min(wordCount, words.length - randomIndex - 1)\<close> words from the start index: it counts
  the words after the start word and slices from the start word, one fewer than remain.
  At the last index of a three-word list with a count of 2 it returns the empty string,
  no word at all; at the index before, it returns one word although two remain.
\<close>

theorem getRandomWordsFromWords_drops_last_word:
  "getRandomWordsFromWords [''a'', ''b'', ''c''] 2 2 = Some [] \<and>
   getRandomWordsFromWords [''a'', ''b'', ''c''] 2 1 = Some ''b'' \<and>
   getRandomWordsFromWords [''a'', ''b'', ''c''] 2 0 = Some ''a b'' \<and>
   getRandomWordsFromWords [''a'', ''b'', ''c''] 0 1 = None"
  by (simp add: getRandomWordsFromWords_def slice_def)

lemma forEachTranslated_zip:
  "forEachTranslated state wordsToTranslate translatedWords index =
     foldl (\<lambda>state pair. mergeTranslation state (fst pair) (snd pair)) state
       (zip (drop index wordsToTranslate) translatedWords)"
proof (induction state wordsToTranslate translatedWords index rule: forEachTranslated.induct)
  case (1 state wordsToTranslate index)
  show ?case by simp
next
  case (2 state wordsToTranslate translation rest index)
  show ?case
  proof (cases "index \<ge> length wordsToTranslate")
    case True
    with 2 show ?thesis by simp
  next
    case False
    then have "drop index wordsToTranslate =
        wordsToTranslate ! index # drop (Suc index) wordsToTranslate"
      by (simp add: Cons_nth_drop_Suc)
    with False 2 show ?thesis by simp
  qed
qed

text \<open>
  C2, as stated, fails: two requests and a response that parses to one translation are
  not discarded; the first request is inserted into the tree and merged into the
  dictionary.
\<close>

theorem translateBatch_mismatch_counterexample:
  "length (parseTranslated ''gato grande'') \<noteq> length [''big cat'', ''dog''] \<and>
   translateBatch (newTree, []) [''big cat'', ''dog''] (Some ''gato grande'') =
     (RadixNode [] None False
        [(''big'', RadixNode [''big'', ''cat''] (Some ''gato grande'') True [])],
      [(''big cat'', ''gato grande'')])"
  by code_simp

text \<open>
  C2, amended. For a non-empty answer, translation \<open>i\<close> of the parsed response list is
  paired with request \<open>i\<close> for every \<open>i\<close> below the shorter of the two lengths, so for every
  request when the lengths agree; the pairs are folded back in order, each inserted into
  the tree and merged into the dictionary. Translations beyond the requests are skipped
  and requests beyond the translations get nothing.
\<close>

theorem translateBatch_pairs_by_position:
  "answer \<noteq> [] \<Longrightarrow>
   translateBatch state wordsToTranslate (Some answer) =
     foldl (\<lambda>state pair. mergeTranslation state (fst pair) (snd pair)) state
       (zip wordsToTranslate (parseTranslated answer))"
  by (simp add: translateBatch_def forEachTranslated_zip Let_def)

theorem translateBatch_pairs_by_position_witness:
  "translateBatch (newTree, []) [''big cat'', ''dog''] (Some ''gato grande, perro'') =
     mergeTranslation (mergeTranslation (newTree, []) ''big cat'' ''gato grande'') ''dog'' ''perro''"
proof -
  have h: "''gato grande, perro'' \<noteq> []" by simp
  have p: "parseTranslated ''gato grande, perro'' = [''gato grande'', ''perro'']" by code_simp
  from translateBatch_pairs_by_position [OF h, of "(newTree, [])" "[''big cat'', ''dog'']"]
  show ?thesis unfolding p by simp
qed

lemma hydrate_build: "hydrate es = build es"
  by (simp add: hydrate_def build_def)

lemma persist_snoc: "persist (ins @ [entry]) = mapSet (fst entry) (snd entry) (persist ins)"
  by (simp add: persist_def)

lemma persist_correct:
  "distinct (map fst (persist ins)) \<and> map_of (persist ins) = map_of (rev ins)"
proof (induction ins rule: rev_induct)
  case Nil
  show ?case by (simp add: persist_def)
next
  case (snoc entry ins)
  then show ?case by (cases entry) (auto simp: persist_snoc keys_mapSet map_of_mapSet)
qed

text \<open>with phrases that have pairwise different word sequences, the tree stores what the
  dictionary stores\<close>
lemma lastInserted_map_of:
  "inj_on phraseWords (fst ` set xs) \<Longrightarrow>
   lastInserted xs ws = Some r \<longleftrightarrow> (\<exists>p. phraseWords p = ws \<and> map_of (rev xs) p = Some r)"
proof (induction xs arbitrary: r rule: rev_induct)
  case Nil
  show ?case by simp
next
  case (snoc e xs)
  from snoc.prems have inj: "inj_on phraseWords (fst ` set xs)"
    by (auto simp: inj_on_def)
  note IH = snoc.IH [OF inj]
  obtain k v where e: "e = (k, v)" by (cases e)
  have upd: "map_of (rev (xs @ [e])) p = (if p = k then Some v else map_of (rev xs) p)" for p
    by (simp add: e)
  show ?case
  proof (cases "phraseWords k = ws")
    case True
    have uniq: "p = k" if "map_of (rev xs) p = Some r'" "phraseWords p = ws" for p r'
    proof -
      from that(1) have "(p, r') \<in> set xs" using map_of_SomeD [of "rev xs" p r'] by simp
      then have "p \<in> fst ` set (xs @ [e])" by force
      moreover have "k \<in> fst ` set (xs @ [e])" by (simp add: e)
      ultimately show "p = k" using snoc.prems True that(2) by (intro inj_onD [OF snoc.prems]) simp_all
    qed
    have "(\<exists>p. phraseWords p = ws \<and> map_of (rev (xs @ [e])) p = Some r) \<longleftrightarrow> r = v"
    proof
      assume "\<exists>p. phraseWords p = ws \<and> map_of (rev (xs @ [e])) p = Some r"
      then obtain p where p: "phraseWords p = ws" "map_of (rev (xs @ [e])) p = Some r" by blast
      show "r = v"
      proof (cases "p = k")
        case True
        with p(2) upd [of p] show ?thesis by simp
      next
        case False
        with p(2) upd [of p] have "map_of (rev xs) p = Some r" by simp
        from uniq [OF this p(1)] False show ?thesis by simp
      qed
    next
      assume "r = v"
      with True upd [of k] show "\<exists>p. phraseWords p = ws \<and> map_of (rev (xs @ [e])) p = Some r"
        by (intro exI [of _ k]) simp
    qed
    moreover from True have "lastInserted (xs @ [e]) ws = Some r \<longleftrightarrow> r = v"
      by (auto simp: lastInserted_snoc e)
    ultimately show ?thesis by simp
  next
    case False
    then have "lastInserted (xs @ [e]) ws = Some r \<longleftrightarrow> lastInserted xs ws = Some r"
      by (simp add: lastInserted_snoc e)
    also have "\<dots> \<longleftrightarrow> (\<exists>p. phraseWords p = ws \<and> map_of (rev xs) p = Some r)" by (rule IH)
    also have "\<dots> \<longleftrightarrow> (\<exists>p. phraseWords p = ws \<and> map_of (rev (xs @ [e])) p = Some r)"
    proof -
      have "map_of (rev (xs @ [e])) p = map_of (rev xs) p" if "phraseWords p = ws" for p
        using that False upd [of p] by auto
      then show ?thesis by metis
    qed
    finally show ?thesis .
  qed
qed

lemma map_of_rev_distinct: "distinct (map fst es) \<Longrightarrow> map_of (rev es) = map_of es"
  by (subst map_of_inject_set) (simp_all flip: rev_map)

lemma findLongestMatch_lookup_cong:
  assumes "wellFormed a" "wellFormed b" "\<And>qs. lookup a qs = lookup b qs"
  shows "findLongestMatch a ws i = findLongestMatch b ws i"
proof -
  from assms(3) have "lookup a = lookup b" by (simp add: fun_eq_iff)
  with findLongestMatch_isLongest [OF assms(1), of i ws]
  have "isLongest (lookup b) (drop i ws) (findLongestMatch a ws i)" by simp
  then show ?thesis using findLongestMatch_isLongest [OF assms(2), of i ws]
    by (rule isLongest_unique)
qed

text \<open>
  C7, as stated, fails: the dictionary is keyed by the phrase string and the tree by its
  word sequence. After the inserts of \<open>"a b"\<close>, \<open>" a b"\<close> and \<open>"a b"\<close> again, which have the
  same words, the tree holds the last replacement; the dictionary holds two keys, and the
  tree hydrated from it, in its own enumeration order, holds the replacement of \<open>" a b"\<close>.
\<close>

theorem dictionary_round_trip_counterexample:
  "persist [(''a b'', ''x''), ('' a b'', ''y''), (''a b'', ''z'')] =
     [(''a b'', ''z''), ('' a b'', ''y'')] \<and>
   findLongestMatch (build [(''a b'', ''x''), ('' a b'', ''y''), (''a b'', ''z'')])
     [''a'', ''b''] 0 = Some (2, Some ''z'') \<and>
   findLongestMatch (hydrate (persist [(''a b'', ''x''), ('' a b'', ''y''), (''a b'', ''z'')]))
     [''a'', ''b''] 0 = Some (2, Some ''y'')"
  by code_simp

text \<open>
  C7, amended. When no two different phrase strings among the inserted pairs have the same
  word sequence, a new tree hydrated from the dictionary that the pairs were merged into,
  with the entries in any enumeration order, answers every \<open>findLongestMatch\<close> query as
  the tree the pairs were inserted into.
\<close>

theorem dictionary_round_trip:
  assumes inj: "inj_on phraseWords (fst ` set ins)"
    and enum: "set es = set (persist ins)" "distinct (map fst es)"
  shows "findLongestMatch (hydrate es) ws i = findLongestMatch (build ins) ws i"
proof -
  from persist_correct [of ins] have pd: "distinct (map fst (persist ins))"
    and pm: "map_of (persist ins) = map_of (rev ins)" by simp_all
  from enum(2) pd enum(1) have "map_of es = map_of (persist ins)"
    by (simp only: map_of_inject_set)
  with pm have m: "map_of es = map_of (rev ins)" by simp
  have "dom (map_of es) = dom (map_of (rev ins))" by (simp only: m)
  then have keys: "fst ` set es = fst ` set ins"
    by (simp only: dom_map_of_conv_image_fst set_rev)
  from inj have inj': "inj_on phraseWords (fst ` set es)" by (simp only: keys)
  from map_of_rev_distinct [OF enum(2)] m have m': "map_of (rev es) = map_of (rev ins)"
    by simp
  have same: "lastInserted es qs = lastInserted ins qs" for qs
  proof (cases "lastInserted es qs")
    case None
    have "lastInserted ins qs = None"
    proof (rule ccontr)
      assume "lastInserted ins qs \<noteq> None"
      then obtain r where "lastInserted ins qs = Some r" by blast
      with lastInserted_map_of [OF inj, of qs r]
      obtain p where "phraseWords p = qs" "map_of (rev ins) p = Some r" by blast
      then have "\<exists>p. phraseWords p = qs \<and> map_of (rev es) p = Some r"
        unfolding m' by blast
      with lastInserted_map_of [OF inj', of qs r] None show False by simp
    qed
    with None show ?thesis by simp
  next
    case (Some r)
    with lastInserted_map_of [OF inj', of qs r]
    obtain p where "phraseWords p = qs" "map_of (rev es) p = Some r" by blast
    then have "\<exists>p. phraseWords p = qs \<and> map_of (rev ins) p = Some r"
      unfolding m' by blast
    with lastInserted_map_of [OF inj, of qs r] Some show ?thesis by simp
  qed
  have look: "lookup (build es) qs = lookup (build ins) qs" for qs
    using build_correct [of es qs] build_correct [of ins qs] same [of qs] by simp
  have "wellFormed (build es)" "wellFormed (build ins)"
    using build_correct [of es] build_correct [of ins] by simp_all
  then have "findLongestMatch (build es) ws i = findLongestMatch (build ins) ws i"
    using look by (rule findLongestMatch_lookup_cong)
  then show ?thesis by (simp only: hydrate_build)
qed

theorem dictionary_round_trip_witness:
  "persist [(''one cat'', ''un gato''), (''dog'', ''perro''), (''one cat'', ''gato'')] =
     [(''one cat'', ''gato''), (''dog'', ''perro'')] \<and>
   findLongestMatch (hydrate [(''dog'', ''perro''), (''one cat'', ''gato'')])
     [''my'', ''one'', ''cat''] 1 =
   findLongestMatch (build [(''one cat'', ''un gato''), (''dog'', ''perro''), (''one cat'', ''gato'')])
     [''my'', ''one'', ''cat''] 1"
proof -
  let ?ins = "[(''one cat'', ''un gato''), (''dog'', ''perro''), (''one cat'', ''gato'')]"
  let ?es = "[(''dog'', ''perro''), (''one cat'', ''gato'')]"
  have p: "persist ?ins = [(''one cat'', ''gato''), (''dog'', ''perro'')]" by code_simp
  have d: "phraseWords ''one cat'' \<noteq> phraseWords ''dog''" by code_simp
  then have h1: "inj_on phraseWords (fst ` set ?ins)" by (auto simp: inj_on_def)
  have h2: "set ?es = set (persist ?ins)" unfolding p by auto
  have h3: "distinct (map fst ?es)" by simp
  from p dictionary_round_trip [OF h1 h2 h3] show ?thesis by blast
qed

section \<open>The search is read-only\<close>

lemma foldl_passed:
  "(\<And>acc e. e \<in> set cs \<Longrightarrow> f acc e = (g (fst acc) e, snd acc @ [e])) \<Longrightarrow>
   foldl f acc cs = (foldl g (fst acc) cs, snd acc @ cs)"
proof (induction cs arbitrary: acc)
  case Nil
  show ?case by simp
next
  case (Cons e es)
  from Cons.prems [of e acc] have "f acc e = (g (fst acc) e, snd acc @ [e])" by simp
  moreover from Cons.prems have "\<And>acc x. x \<in> set es \<Longrightarrow> f acc x = (g (fst acc) x, snd acc @ [x])"
    by simp
  from Cons.IH [OF this] have "foldl f (f acc e) es = (foldl g (fst (f acc e)) es, snd (f acc e) @ es)" .
  ultimately show ?case by simp
qed

lemma findLongestMatchRecursive_st_pure:
  "findLongestMatchRecursive_st node words index matchLength =
     (findLongestMatchRecursive node words index matchLength, node)"
proof (induction node words index matchLength rule: findLongestMatchRecursive_st.induct)
  case (1 node words index matchLength)
  show ?case
  proof (cases "length words \<le> index")
    case True
    then show ?thesis
      by (simp add: findLongestMatchRecursive_st.simps [of node words index matchLength]
          findLongestMatchRecursive.simps [of node words index matchLength])
  next
    case False
    define start where "start = (if isEndOfWord node then Some (matchLength, replacement node) else None)"
    define g where "g = (\<lambda>bestMatch (entry :: string \<times> RadixNode).
                 let child = snd entry in
                 if index + length (phrase child) > length words then bestMatch
                 else if matchesAt (phrase child) words index then
                   (case findLongestMatchRecursive child words (index + length (phrase child))
                           (matchLength + length (phrase child)) of
                      None \<Rightarrow> bestMatch
                    | Some match \<Rightarrow>
                        (case bestMatch of
                           None \<Rightarrow> Some match
                         | Some best \<Rightarrow> if fst match > fst best then Some match else bestMatch))
                 else bestMatch)"
    define f where "f = (\<lambda>acc (entry :: string \<times> RadixNode).
                 let bestMatch = fst acc; passed = snd acc; child = snd entry in
                 if index + length (phrase child) > length words then
                   (bestMatch, passed @ [entry])
                 else if matchesAt (phrase child) words index then
                   (let called = findLongestMatchRecursive_st child words
                          (index + length (phrase child)) (matchLength + length (phrase child))
                    in ((case fst called of
                           None \<Rightarrow> bestMatch
                         | Some match \<Rightarrow>
                             (case bestMatch of
                                None \<Rightarrow> Some match
                              | Some best \<Rightarrow>
                                  if fst match > fst best then Some match else bestMatch)),
                        passed @ [(fst entry, snd called)]))
                 else (bestMatch, passed @ [entry]))"
    have st: "findLongestMatchRecursive_st node words index matchLength =
        (fst (foldl f (start, []) (children node)),
         RadixNode (phrase node) (replacement node) (isEndOfWord node)
           (snd (foldl f (start, []) (children node))))"
      using False
      by (simp add: findLongestMatchRecursive_st.simps [of node words index matchLength]
          f_def start_def Let_def)
    have pure: "findLongestMatchRecursive node words index matchLength =
        foldl g start (children node)"
      using False
      by (simp add: findLongestMatchRecursive.simps [of node words index matchLength]
          g_def start_def)
    have step: "f acc e = (g (fst acc) e, snd acc @ [e])" if "e \<in> set (children node)" for acc e
    proof (cases "\<not> length words < index + length (phrase (snd e)) \<and>
                  matchesAt (phrase (snd e)) words index")
      case True
      then have fits: "\<not> length words < index + length (phrase (snd e))"
        and m: "matchesAt (phrase (snd e)) words index" by simp_all
      from "1.IH" [OF False that refl refl refl fits m]
      have "findLongestMatchRecursive_st (snd e) words (index + length (phrase (snd e)))
              (matchLength + length (phrase (snd e))) =
            (findLongestMatchRecursive (snd e) words (index + length (phrase (snd e)))
              (matchLength + length (phrase (snd e))), snd e)" .
      with fits m show ?thesis by (simp add: f_def g_def Let_def)
    next
      case False
      then show ?thesis by (auto simp: f_def g_def Let_def)
    qed
    from foldl_passed [of "children node" f g "(start, [])", OF step]
    have "foldl f (start, []) (children node) = (foldl g start (children node), children node)"
      by simp
    with st pure show ?thesis by simp
  qed
qed

text \<open>
  C10. \<open>findLongestMatch\<close> is a read-only query: for every tree and every input, the tree
  after the call is the tree before it, node by node (phrase label, replacement, end
  flag and children map entries), and the result is that of the search.
\<close>

theorem findLongestMatch_read_only:
  "findLongestMatch_st root words startIndex = (findLongestMatch root words startIndex, root)"
  by (simp add: findLongestMatch_st_def findLongestMatch_def findLongestMatchRecursive_st_pure)

end
